theory Spec2Isabelle
  imports Complex_Main "HOL-Library.Word"
begin

section \<open>Failures\<close>

text \<open>
  A data member \<open>name_\<close> of a C++ class is the record field \<open>name_'\<close>.
  Every way in which the C++ code leaves a function without returning a value is one
  constructor: the exceptions it throws and its failed assertions.
\<close>

datatype error =
    InvalidChannel        \<comment> \<open>\<open>std::invalid_argument\<close> thrown by \<open>linearIndex\<close>\<close>
  | IndexOutOfRange       \<comment> \<open>\<open>std::out_of_range\<close>\<close>
  | AssertionFailure      \<comment> \<open>a failed \<open>assert\<close>\<close>
  | InvalidWindow         \<comment> \<open>the failed assertions of \<open>setEMinMaxTS\<close>\<close>
  | MissingGeometryEntry  \<comment> \<open>\<open>std::runtime_error\<close> of the \<open>HBHEChannelGeometry\<close> constructor\<close>
  | GeometryFileError     \<comment> \<open>\<open>std::invalid_argument\<close> thrown by \<open>loadData\<close>\<close>

text \<open>
  A loop whose body can fail: the body is run on the elements in turn, threading the
  state, and the first failure ends the loop.
\<close>

fun for_each :: "('s \<Rightarrow> 'a \<Rightarrow> error + 's) \<Rightarrow> 's \<Rightarrow> 'a list \<Rightarrow> error + 's" where
  "for_each body s [] = Inr s"
| "for_each body s (x # xs) =
     (case body s x of Inl e \<Rightarrow> Inl e | Inr s' \<Rightarrow> for_each body s' xs)"

section \<open>Channel identifiers and subdetectors\<close>

text \<open>
  Modelled from the spec: the class \<open>HBHEChannelId\<close> (header \<open>HBHEChannelId.h\<close>) is not
  among the sources. The spec describes it as a value type holding a
  (depth, ieta, iphi) triple; its accessors \<open>depth()\<close>, \<open>ieta()\<close>, \<open>iphi()\<close> return what
  the constructor was given, and two identifiers are the same key of \<open>inverse_\<close> exactly
  when the three fields agree.
\<close>

datatype HBHEChannelId = HBHEChannelId (depth: nat) (ieta: int) (iphi: nat)

datatype HcalSubdetector = HcalBarrel | HcalEndcap

text \<open>\<open>HBHEChannelMap::getSubdetector\<close>, with its three range assertions.\<close>

definition getSubdetector :: "nat \<Rightarrow> int \<Rightarrow> error + HcalSubdetector" where
  "getSubdetector dep eta =
     (let abseta = nat \<bar>eta\<bar> in
      if \<not> abseta \<le> 29 then Inl AssertionFailure
      else if \<not> (dep > 0 \<and> dep < 4) then Inl AssertionFailure
      else if abseta = 29 \<and> \<not> dep \<le> 2 then Inl AssertionFailure
      else if abseta \<le> 15 then Inr HcalBarrel
      else if abseta = 16 then Inr (if dep \<le> 2 then HcalBarrel else HcalEndcap)
      else Inr HcalEndcap)"

section \<open>The hardware mapping\<close>

text \<open>
  Modelled from the spec: \<open>HcalDetId\<close> and \<open>HcalHPDRBXMap\<close> are not among the sources.
  The spec treats the hardware mapping as a pure function
  (subdetector, ieta, iphi, depth) \<open>\<rightarrow>\<close> module id supplied at configuration time, so the
  two counts and the two index functions are parameters of the model.
\<close>

datatype HcalDetId =
  HcalDetId (det_subdet: HcalSubdetector) (det_ieta: int) (det_iphi: nat) (det_depth: nat)

record HcalHPDRBXMap =
  NUM_HPDS :: nat
  NUM_RBXS :: nat
  indexHPD :: "HcalDetId \<Rightarrow> int"
  indexRBXfromHPD :: "int \<Rightarrow> int"

section \<open>The channel map\<close>

text \<open>
  Modelled from the spec: the constant \<open>HBHEChannelMap::ChannelCount\<close> is declared in
  \<open>HBHEChannelMap.h\<close>, which is not among the sources. The spec calls it a fixed
  detector constant that the enumerated count has to match, without giving its value;
  5184 is the number of channels the loops of the constructor enumerate, and the upper
  edge of the hit-count histogram of the example analysis.
\<close>

definition ChannelCount :: nat where
  "ChannelCount = 5184"

record HBHEChannelMap =
  lookup_' :: "HBHEChannelId list"
  inverse_' :: "HBHEChannelId \<rightharpoonup> nat"
  hpd_lookup_' :: "nat list"
  chan_in_hpd_lookup_' :: "nat list"
  hpd_channel_lookup_' :: "nat list list"
  rbx_lookup_' :: "nat list"
  chan_in_rbx_lookup_' :: "nat list"
  rbx_channel_lookup_' :: "nat list list"
  channel_neighbors_' :: "nat list list"
  neighborInfoFilled_' :: bool
  hpd_neighbors_' :: "nat list list"
  hpdNeighborsFilled_' :: bool

subsection \<open>Enumeration of the channels\<close>

text \<open>The loop \<open>for (i = lo; i < hi; i += step)\<close> as the list of the values \<open>i\<close> takes.\<close>

function range_step :: "nat \<Rightarrow> nat \<Rightarrow> nat \<Rightarrow> nat list" where
  "range_step i hi step =
     (if i < hi \<and> 0 < step then i # range_step (i + step) hi step else [])"
  by pat_completeness auto
termination
  by (relation "measure (\<lambda>(i, hi, step). hi - i)") auto

declare range_step.simps [simp del]

text \<open>\<open>for (iphi = 1; iphi <= 72; ++iphi)\<close> and \<open>for (iphi = 1; iphi < 72; iphi += 2)\<close>.\<close>

definition full_phi :: "nat list" where
  "full_phi = [1..<73]"

definition half_phi :: "nat list" where
  "half_phi = range_step 1 72 2"

text \<open>
  One pair of nested loops of the constructor: for each ieta in turn, for each iphi in
  turn, the next element of \<open>lookup_\<close>.
\<close>

definition rings :: "nat \<Rightarrow> int list \<Rightarrow> nat list \<Rightarrow> HBHEChannelId list" where
  "rings d etas phis =
     concat (map (\<lambda>eta. map (\<lambda>phi. HBHEChannelId d eta phi) phis) etas)"

text \<open>
  The first part of the constructor \<open>HBHEChannelMap::HBHEChannelMap\<close>: the thirteen loop
  nests, in the order of the source. Every assignment to \<open>lookup_[l++]\<close> appends one element.
\<close>

definition channel_enumeration :: "HBHEChannelId list" where
  "channel_enumeration =
       rings 1 [-29..-21] half_phi
     @ rings 1 (filter (\<lambda>eta. eta \<noteq> 0) [-20..20]) full_phi
     @ rings 1 [21..29] half_phi
     @ rings 2 [-29..-21] half_phi
     @ rings 2 [-20..-18] full_phi
     @ rings 2 [-16..-15] full_phi
     @ rings 2 [15..16] full_phi
     @ rings 2 [18..20] full_phi
     @ rings 2 [21..29] half_phi
     @ rings 3 [-28..-27] half_phi
     @ rings 3 [-16..-16] full_phi
     @ rings 3 [16..16] full_phi
     @ rings 3 [27..28] half_phi"

subsection \<open>Construction\<close>

text \<open>
  One iteration of the second loop of the constructor, for channel \<open>i\<close>: the inverse map,
  the subdetector, the module (HPD) and the rack (RBX) of the channel, with the two
  range assertions.
\<close>

definition ctor_step :: "HcalHPDRBXMap \<Rightarrow> HBHEChannelMap \<Rightarrow> nat \<Rightarrow> error + HBHEChannelMap" where
  "ctor_step hw m i =
     (let cid = lookup_' m ! i in
      case getSubdetector (depth cid) (ieta cid) of
        Inl e \<Rightarrow> Inl e
      | Inr sub \<Rightarrow>
          let hpd = indexHPD hw (HcalDetId sub (ieta cid) (iphi cid) (depth cid)) in
          if \<not> (0 \<le> hpd \<and> hpd < int (NUM_HPDS hw)) then Inl AssertionFailure
          else
            let rbx = indexRBXfromHPD hw hpd in
            if \<not> (0 \<le> rbx \<and> rbx < int (NUM_RBXS hw)) then Inl AssertionFailure
            else Inr (m\<lparr>
              inverse_' := (inverse_' m)(cid \<mapsto> i),
              hpd_lookup_' := (hpd_lookup_' m)[i := nat hpd],
              chan_in_hpd_lookup_' :=
                (chan_in_hpd_lookup_' m)[i := length (hpd_channel_lookup_' m ! nat hpd)],
              hpd_channel_lookup_' :=
                (hpd_channel_lookup_' m)[nat hpd := hpd_channel_lookup_' m ! nat hpd @ [i]],
              rbx_lookup_' := (rbx_lookup_' m)[i := nat rbx],
              chan_in_rbx_lookup_' :=
                (chan_in_rbx_lookup_' m)[i := length (rbx_channel_lookup_' m ! nat rbx)],
              rbx_channel_lookup_' :=
                (rbx_channel_lookup_' m)[nat rbx := rbx_channel_lookup_' m ! nat rbx @ [i]]\<rparr>))"

text \<open>The object before the second loop: the enumeration is in place, nothing else is.\<close>

definition initial_map :: "HcalHPDRBXMap \<Rightarrow> HBHEChannelMap" where
  "initial_map hw =
     \<lparr> lookup_' = channel_enumeration,
       inverse_' = Map.empty,
       hpd_lookup_' = replicate ChannelCount 0,
       chan_in_hpd_lookup_' = replicate ChannelCount 0,
       hpd_channel_lookup_' = replicate (NUM_HPDS hw) [],
       rbx_lookup_' = replicate ChannelCount 0,
       chan_in_rbx_lookup_' = replicate ChannelCount 0,
       rbx_channel_lookup_' = replicate (NUM_RBXS hw) [],
       channel_neighbors_' = replicate ChannelCount [],
       neighborInfoFilled_' = False,
       hpd_neighbors_' = replicate (NUM_HPDS hw) [],
       hpdNeighborsFilled_' = False \<rparr>"

text \<open>
  The constructor \<open>HBHEChannelMap::HBHEChannelMap\<close>: the enumeration, the assertion
  \<open>l == ChannelCount\<close>, then the loop over all channels.
\<close>

definition HBHEChannelMap_ctor :: "HcalHPDRBXMap \<Rightarrow> error + HBHEChannelMap" where
  "HBHEChannelMap_ctor hw =
     (if length channel_enumeration \<noteq> ChannelCount then Inl AssertionFailure
      else for_each (ctor_step hw) (initial_map hw) [0..<ChannelCount])"

subsection \<open>Lookups\<close>

text \<open>\<open>HBHEChannelMap::getChannelTriple\<close>; the three output pointers are the result.\<close>

definition getChannelTriple :: "HBHEChannelMap \<Rightarrow> nat \<Rightarrow> error + (nat \<times> int \<times> nat)" where
  "getChannelTriple m index =
     (if index \<ge> ChannelCount then Inl IndexOutOfRange
      else let cid = lookup_' m ! index in Inr (depth cid, ieta cid, iphi cid))"

definition isValidTriple :: "HBHEChannelMap \<Rightarrow> nat \<Rightarrow> int \<Rightarrow> nat \<Rightarrow> bool" where
  "isValidTriple m d eta phi = (inverse_' m (HBHEChannelId d eta phi) \<noteq> None)"

definition linearIndex :: "HBHEChannelMap \<Rightarrow> nat \<Rightarrow> int \<Rightarrow> nat \<Rightarrow> error + nat" where
  "linearIndex m d eta phi =
     (case inverse_' m (HBHEChannelId d eta phi) of
        None \<Rightarrow> Inl InvalidChannel
      | Some i \<Rightarrow> Inr i)"

definition getHPD :: "HBHEChannelMap \<Rightarrow> nat \<Rightarrow> error + nat" where
  "getHPD m index =
     (if index \<ge> ChannelCount then Inl IndexOutOfRange else Inr (hpd_lookup_' m ! index))"

subsection \<open>Neighbours of a channel\<close>

text \<open>
  The body of the two nested loops of \<open>calculateNeighborList\<close>, for one pair
  (etaShift, phiShift); \<open>acc\<close> is the filled part of \<open>neighborChannels\<close>.
\<close>

definition neighbor_candidate ::
  "HBHEChannelMap \<Rightarrow> nat \<Rightarrow> int \<Rightarrow> int \<Rightarrow> nat \<Rightarrow> nat list \<Rightarrow> int \<times> int \<Rightarrow> error + nat list" where
  "neighbor_candidate m dep eta0 phi0 myHPD acc shift =
     (let etaShift = fst shift; phiShift = snd shift;
          iEta = eta0 + etaShift;
          iEta = (if iEta = 0 then iEta + etaShift else iEta) in
      if etaShift \<noteq> 0 \<or> phiShift \<noteq> 0 then
        let iPhi = phi0 + phiShift in
        if \<not> (iPhi \<ge> 0 \<and> iPhi \<le> 73) then Inl AssertionFailure
        else
          let iPhi = (if iPhi = 0 then 72 else if iPhi = 73 then 1 else iPhi) in
          case inverse_' m (HBHEChannelId dep iEta (nat iPhi)) of
            None \<Rightarrow> Inr acc
          | Some neighbor \<Rightarrow>
              (case getHPD m neighbor of
                 Inl e \<Rightarrow> Inl e
               | Inr h \<Rightarrow> Inr (if myHPD \<noteq> h then acc @ [neighbor] else acc))
      else Inr acc)"

text \<open>The pairs (etaShift, phiShift) in the order the two loops visit them.\<close>

definition shifts :: "(int \<times> int) list" where
  "shifts = concat (map (\<lambda>etaShift. map (\<lambda>phiShift. (etaShift, phiShift)) [-1..1]) [-1..1])"

text \<open>
  \<open>HBHEChannelMap::calculateNeighborList\<close>. The channel read from \<open>lookup_[index]\<close> is
  used only after \<open>getHPD\<close> has checked the index.
\<close>

definition calculateNeighborList :: "HBHEChannelMap \<Rightarrow> nat \<Rightarrow> error + nat list" where
  "calculateNeighborList m index =
     (let dep = depth (lookup_' m ! index);
          eta0 = ieta (lookup_' m ! index);
          phi0 = int (iphi (lookup_' m ! index)) in
      case getHPD m index of
        Inl e \<Rightarrow> Inl e
      | Inr myHPD \<Rightarrow>
          (case for_each (neighbor_candidate m dep eta0 phi0 myHPD) [] shifts of
             Inl e \<Rightarrow> Inl e
           | Inr neighborChannels \<Rightarrow> Inr (sort neighborChannels)))"

text \<open>
  The cache-filling loop of \<open>channelNeigborsFromOtherHPDs\<close> for one channel, and the
  function itself. It returns the object, whose cache may have been filled, and the
  vector it refers to.
\<close>

definition fill_channel_neighbors :: "HBHEChannelMap \<Rightarrow> nat \<Rightarrow> error + HBHEChannelMap" where
  "fill_channel_neighbors m i =
     (case calculateNeighborList m i of
        Inl e \<Rightarrow> Inl e
      | Inr vec \<Rightarrow> Inr (m\<lparr>channel_neighbors_' := (channel_neighbors_' m)[i := vec]\<rparr>))"

definition channelNeigborsFromOtherHPDs ::
  "HBHEChannelMap \<Rightarrow> nat \<Rightarrow> error + (HBHEChannelMap \<times> nat list)" where
  "channelNeigborsFromOtherHPDs m index =
     (if index \<ge> ChannelCount then Inl IndexOutOfRange
      else
        case (if \<not> neighborInfoFilled_' m then
                (case for_each fill_channel_neighbors m [0..<ChannelCount] of
                   Inl e \<Rightarrow> Inl e
                 | Inr m' \<Rightarrow> Inr (m'\<lparr>neighborInfoFilled_' := True\<rparr>))
              else Inr m) of
          Inl e \<Rightarrow> Inl e
        | Inr m' \<Rightarrow> Inr (m', channel_neighbors_' m' ! index))"

subsection \<open>Neighbours of a module\<close>

text \<open>
  \<open>HBHEChannelMap::calculateHPDNeighbors\<close>. The \<open>std::set<unsigned>\<close> is kept as the
  increasing list of its elements, which is the order its iterator visits them in.
\<close>

definition collect_neighbors ::
  "HBHEChannelMap \<times> nat list \<Rightarrow> nat \<Rightarrow> error + (HBHEChannelMap \<times> nat list)" where
  "collect_neighbors s chan =
     (case channelNeigborsFromOtherHPDs (fst s) chan of
        Inl e \<Rightarrow> Inl e
      | Inr (m', chNeighbors) \<Rightarrow> Inr (m', fold insort_insert chNeighbors (snd s)))"

definition calculateHPDNeighbors ::
  "HBHEChannelMap \<Rightarrow> nat \<Rightarrow> error + (HBHEChannelMap \<times> nat list)" where
  "calculateHPDNeighbors m hpd =
     (case for_each collect_neighbors (m, []) (hpd_channel_lookup_' m ! hpd) of
        Inl e \<Rightarrow> Inl e
      | Inr (m', neighborSet) \<Rightarrow> Inr (m', sort neighborSet))"

definition fill_hpd_neighbors :: "HBHEChannelMap \<Rightarrow> nat \<Rightarrow> error + HBHEChannelMap" where
  "fill_hpd_neighbors m i =
     (case calculateHPDNeighbors m i of
        Inl e \<Rightarrow> Inl e
      | Inr (m', vec) \<Rightarrow> Inr (m'\<lparr>hpd_neighbors_' := (hpd_neighbors_' m')[i := vec]\<rparr>))"

text \<open>\<open>HBHEChannelMap::getHPDNeigbors\<close>.\<close>

definition getHPDNeigbors ::
  "HcalHPDRBXMap \<Rightarrow> HBHEChannelMap \<Rightarrow> nat \<Rightarrow> error + (HBHEChannelMap \<times> nat list)" where
  "getHPDNeigbors hw m hpd =
     (let hpdMax = NUM_HPDS hw in
      if hpd \<ge> hpdMax then Inl IndexOutOfRange
      else
        case (if \<not> hpdNeighborsFilled_' m then
                (case for_each fill_hpd_neighbors m [0..<hpdMax] of
                   Inl e \<Rightarrow> Inl e
                 | Inr m' \<Rightarrow> Inr (m'\<lparr>hpdNeighborsFilled_' := True\<rparr>))
              else Inr m) of
          Inl e \<Rightarrow> Inl e
        | Inr m' \<Rightarrow> Inr (m', hpd_neighbors_' m' ! hpd))"

subsection \<open>Neighbours of a set of channels\<close>

text \<open>
  \<open>HBHEChannelMap::channelSetNeighbors\<close>: the neighbours of at most 18 channels are
  collected in an array of \<open>18*8\<close> entries, sorted, and copied without repetitions. It
  asserts that no channel has more than 8 neighbours.
\<close>

definition collect_candidates ::
  "HBHEChannelMap \<times> nat list \<Rightarrow> nat \<Rightarrow> error + (HBHEChannelMap \<times> nat list)" where
  "collect_candidates s inp =
     (case channelNeigborsFromOtherHPDs (fst s) inp of
        Inl e \<Rightarrow> Inl e
      | Inr (m', chNeighbors) \<Rightarrow>
          if \<not> length chNeighbors \<le> 8 then Inl AssertionFailure
          else Inr (m', snd s @ chNeighbors))"

definition channelSetNeighbors ::
  "HBHEChannelMap \<Rightarrow> nat list \<Rightarrow> error + (HBHEChannelMap \<times> nat list)" where
  "channelSetNeighbors m input =
     (if \<not> length input \<le> 18 then Inl AssertionFailure
      else
        case for_each collect_candidates (m, []) input of
          Inl e \<Rightarrow> Inl e
        | Inr (m', cands) \<Rightarrow> Inr (m', remdups_adj (sort cands)))"


section \<open>Energy of a pulse\<close>

definition N_TIME_SLICES :: nat where
  "N_TIME_SLICES = 10"

text \<open>
  The part of \<open>NoiseTreeHelper\<close> (and of its base class \<open>HcalNoiseTree\<close>) that \<open>energy\<close>
  reads. The arithmetic of \<open>double\<close> is left open: the element type \<open>'a\<close> only has to
  provide \<open>0\<close>, \<open>+\<close>, \<open>-\<close> and \<open>*\<close>, and no law of arithmetic is built into the model.
\<close>

record 'a NoiseTreeHelper =
  PulseCount :: int
  Charge :: "nat \<Rightarrow> nat \<Rightarrow> 'a"
  Pedestal :: "nat \<Rightarrow> nat \<Rightarrow> 'a"
  Gain :: "nat \<Rightarrow> nat \<Rightarrow> 'a"
  eMinTS_' :: nat
  eMaxTS_' :: nat

definition setEMinMaxTS ::
  "nat \<Rightarrow> nat \<Rightarrow> 'a NoiseTreeHelper \<Rightarrow> error + 'a NoiseTreeHelper" where
  "setEMinMaxTS tsMin tsMax h =
     (if \<not> tsMin < tsMax then Inl InvalidWindow
      else if \<not> tsMax \<le> N_TIME_SLICES then Inl InvalidWindow
      else Inr (h\<lparr>eMinTS_' := tsMin, eMaxTS_' := tsMax\<rparr>))"

text \<open>The loop \<open>for (i = eMinTS_; i < eMaxTS_; ++i) e += (q[i] - ped[i])*g[i]\<close>.\<close>

function energy_loop ::
  "(nat \<Rightarrow> 'a) \<Rightarrow> (nat \<Rightarrow> 'a) \<Rightarrow> (nat \<Rightarrow> 'a) \<Rightarrow> nat \<Rightarrow> nat \<Rightarrow> 'a::{plus,minus,times} \<Rightarrow> 'a" where
  "energy_loop q ped g i hi e =
     (if i < hi then energy_loop q ped g (i + 1) hi (e + (q i - ped i) * g i) else e)"
  by pat_completeness auto
termination
  by (relation "measure (\<lambda>(q, ped, g, i, hi, e). hi - i)") auto

declare energy_loop.simps [simp del]

definition energy :: "'a::{zero,plus,minus,times} NoiseTreeHelper \<Rightarrow> nat \<Rightarrow> error + 'a" where
  "energy h idx =
     (if \<not> idx < nat (PulseCount h mod 2 ^ 32) then Inl AssertionFailure
      else Inr (energy_loop (Charge h idx) (Pedestal h idx) (Gain h idx)
                  (eMinTS_' h) (eMaxTS_' h) 0))"

section \<open>Channel geometry\<close>

text \<open>
  \<open>TVector3\<close> belongs to the ROOT library. The model takes the vector type \<open>'v\<close> with
  the default-constructed (zero) vector and the function \<open>Unit\<close> as parameters.
\<close>

record 'v TVector3_ops =
  zero_vector :: 'v
  Unit :: "'v \<Rightarrow> 'v"

text \<open>
  What opening and parsing one geometry file gives \<open>loadData\<close>: the file cannot be
  opened, \<open>fillTuplesFromText\<close> reports failure, or the rows
  (ieta, iphi, depth, vector of x, y, z). The three integers are C++ \<open>int\<close>s.
\<close>

datatype 'v geometry_file =
    CannotOpen
  | ParseFailure
  | Rows "(32 word \<times> 32 word \<times> 32 word \<times> 'v) list"

text \<open>
  One row of \<open>loadData\<close>: \<open>linearIndex\<close> takes the depth and iphi as \<open>unsigned\<close> and
  the ieta as \<open>int\<close>; \<open>directions_.at(idx)\<close> checks the index.
\<close>

definition load_row ::
  "'v TVector3_ops \<Rightarrow> HBHEChannelMap \<Rightarrow> 'v list \<Rightarrow> 32 word \<times> 32 word \<times> 32 word \<times> 'v
     \<Rightarrow> error + 'v list" where
  "load_row ops chmap dirs t =
     (case t of (r_ieta, r_iphi, r_depth, vec) \<Rightarrow>
        (case linearIndex chmap (unat r_depth) (sint r_ieta) (unat r_iphi) of
           Inl e \<Rightarrow> Inl e
         | Inr idx \<Rightarrow>
             if idx \<ge> length dirs then Inl IndexOutOfRange
             else Inr (dirs[idx := Unit ops vec])))"

definition loadData ::
  "'v TVector3_ops \<Rightarrow> 'v geometry_file \<Rightarrow> HBHEChannelMap \<Rightarrow> 'v list \<Rightarrow> error + 'v list" where
  "loadData ops file chmap dirs =
     (case file of
        CannotOpen \<Rightarrow> Inl GeometryFileError
      | ParseFailure \<Rightarrow> Inl GeometryFileError
      | Rows nt \<Rightarrow> for_each (load_row ops chmap) dirs nt)"

text \<open>The final loop of the constructor: the first channel without a direction throws.\<close>

definition check_direction :: "'v TVector3_ops \<Rightarrow> HBHEChannelMap \<Rightarrow> 'v list \<Rightarrow> nat \<Rightarrow> error + 'v list" where
  "check_direction ops chmap dirs i =
     (if dirs ! i = zero_vector ops then
        (case getChannelTriple chmap i of
           Inl e \<Rightarrow> Inl e
         | Inr triple \<Rightarrow> Inl MissingGeometryEntry)
      else Inr dirs)"

record 'v HBHEChannelGeometry =
  directions_' :: "'v list"

definition HBHEChannelGeometry_ctor ::
  "HcalHPDRBXMap \<Rightarrow> 'v TVector3_ops \<Rightarrow> 'v geometry_file \<Rightarrow> 'v geometry_file
     \<Rightarrow> error + 'v HBHEChannelGeometry" where
  "HBHEChannelGeometry_ctor hw ops hbFile heFile =
     (case HBHEChannelMap_ctor hw of
        Inl e \<Rightarrow> Inl e
      | Inr chmap \<Rightarrow>
          (case loadData ops hbFile chmap (replicate ChannelCount (zero_vector ops)) of
             Inl e \<Rightarrow> Inl e
           | Inr dirs1 \<Rightarrow>
               (case loadData ops heFile chmap dirs1 of
                  Inl e \<Rightarrow> Inl e
                | Inr dirs2 \<Rightarrow>
                    (case for_each (check_direction ops chmap) dirs2 [0..<ChannelCount] of
                       Inl e \<Rightarrow> Inl e
                     | Inr dirs \<Rightarrow> Inr \<lparr>directions_' = dirs\<rparr>))))"

section \<open>Energy-budget pruning\<close>

text \<open>
  Modelled from the spec: the implementation of the channel selector
  (\<open>FFTJetChannelSelector.icc\<close>) is not among the sources, only its class declaration.
  The two definitions follow section 4.5 of the spec: the channels of a jet, each an
  (energy, channel) pair as in the member \<open>jetChannels_\<close>, are sorted by ascending
  energy; a running discard sum is accumulated; a channel is discarded (flag \<open>False\<close>)
  while the running sum with it does not exceed \<open>f\<close> times the total energy of the jet;
  the first channel that would exceed the budget is kept (flag \<open>True\<close>) with all the
  channels after it. A jet of total energy zero discards all its channels. Energies
  are real numbers here.
\<close>

fun discard_lowest :: "real \<Rightarrow> real \<Rightarrow> (real \<times> int) list \<Rightarrow> (int \<times> bool) list" where
  "discard_lowest budget running [] = []"
| "discard_lowest budget running ((e, ch) # rest) =
     (if running + e \<le> budget then (ch, False) # discard_lowest budget (running + e) rest
      else map (\<lambda>c. (snd c, True)) ((e, ch) # rest))"

definition prune_jet :: "real \<Rightarrow> real \<Rightarrow> (real \<times> int) list \<Rightarrow> (int \<times> bool) list" where
  "prune_jet f jet_total_energy chans =
     (let sorted_chans = sort_key fst chans in
      if jet_total_energy = 0 then map (\<lambda>c. (snd c, False)) sorted_chans
      else discard_lowest (f * jet_total_energy) 0 sorted_chans)"

section \<open>Auxiliary notions for the proofs\<close>

text \<open>
  The module and the rack the constructor computes for a channel identifier, with
  the assertions it makes on the way.
\<close>

definition channel_modules :: "HcalHPDRBXMap \<Rightarrow> HBHEChannelId \<Rightarrow> error + (nat \<times> nat)" where
  "channel_modules hw cid =
     (case getSubdetector (depth cid) (ieta cid) of
        Inl e \<Rightarrow> Inl e
      | Inr sub \<Rightarrow>
          let hpd = indexHPD hw (HcalDetId sub (ieta cid) (iphi cid) (depth cid)) in
          if \<not> (0 \<le> hpd \<and> hpd < int (NUM_HPDS hw)) then Inl AssertionFailure
          else
            let rbx = indexRBXfromHPD hw hpd in
            if \<not> (0 \<le> rbx \<and> rbx < int (NUM_RBXS hw)) then Inl AssertionFailure
            else Inr (nat hpd, nat rbx))"

definition hpd_of :: "HcalHPDRBXMap \<Rightarrow> HBHEChannelId \<Rightarrow> nat" where
  "hpd_of hw cid = fst (projr (channel_modules hw cid))"


text \<open>
  The part of the object that no query changes: everything but the two caches and
  their flags (the rack tables, which no claim reads, are left out).
\<close>

definition static_part ::
  "HBHEChannelMap \<Rightarrow> HBHEChannelId list \<times> (HBHEChannelId \<rightharpoonup> nat) \<times> nat list \<times> nat list list" where
  "static_part m = (lookup_' m, inverse_' m, hpd_lookup_' m, hpd_channel_lookup_' m)"

text \<open>
  The objects a program can hold: a constructed map, after any number of neighbour
  queries, each of which may fill a cache.
\<close>

inductive reachable :: "HcalHPDRBXMap \<Rightarrow> HBHEChannelMap \<Rightarrow> bool" for hw where
  constructed: "HBHEChannelMap_ctor hw = Inr m \<Longrightarrow> reachable hw m"
| channel_query:
    "reachable hw m \<Longrightarrow> channelNeigborsFromOtherHPDs m index = Inr (m', ns) \<Longrightarrow> reachable hw m'"
| module_query:
    "reachable hw m \<Longrightarrow> getHPDNeigbors hw m hpd = Inr (m', ns) \<Longrightarrow> reachable hw m'"

text \<open>
  A small hardware mapping to run the model on: the channel (depth 3, ieta 16, iphi 1)
  is alone on module 1, every other channel is on module 0, and there is one rack.
\<close>

definition example_hw :: HcalHPDRBXMap where
  "example_hw =
     \<lparr> NUM_HPDS = 2, NUM_RBXS = 1,
       indexHPD = (\<lambda>id. if det_depth id = 3 \<and> det_ieta id = 16 \<and> det_iphi id = 1 then 1 else 0),
       indexRBXfromHPD = (\<lambda>hpd. 0) \<rparr>"

definition example_map :: HBHEChannelMap where
  "example_map = projr (HBHEChannelMap_ctor example_hw)"

text \<open>
  A map whose unchanging part is that of a constructed map; the caches may hold
  anything.
\<close>

definition built :: "HcalHPDRBXMap \<Rightarrow> HBHEChannelMap \<Rightarrow> bool" where
  "built hw m = (\<exists>m0. HBHEChannelMap_ctor hw = Inr m0 \<and> static_part m = static_part m0)"

text \<open>
  The neighbourhood in the words of the spec: a shift in ieta that lands on 0 is pushed
  one further in the same direction, azimuth bin 0 is bin 72 and bin 73 is bin 1. The
  eight identifiers around a channel, the test for a channel of another module, and
  the sorted list of the indices of the neighbours found.
\<close>

definition shifted_eta :: "int \<Rightarrow> int \<Rightarrow> int" where
  "shifted_eta eta0 s = (if eta0 + s = 0 then eta0 + s + s else eta0 + s)"

definition wrapped_phi :: "int \<Rightarrow> int" where
  "wrapped_phi p = (if p = 0 then 72 else if p = 73 then 1 else p)"

definition neighbor_ids :: "nat \<Rightarrow> int \<Rightarrow> int \<Rightarrow> HBHEChannelId list" where
  "neighbor_ids dep eta0 phi0 =
     map (\<lambda>s. HBHEChannelId dep (shifted_eta eta0 (fst s)) (nat (wrapped_phi (phi0 + snd s))))
       (filter (\<lambda>s. fst s \<noteq> 0 \<or> snd s \<noteq> 0) shifts)"

definition other_module :: "HBHEChannelMap \<Rightarrow> nat \<Rightarrow> HBHEChannelId \<Rightarrow> bool" where
  "other_module m index c =
     (case inverse_' m c of None \<Rightarrow> False
      | Some n \<Rightarrow> hpd_lookup_' m ! index \<noteq> hpd_lookup_' m ! n)"

definition neighbors_of :: "HBHEChannelMap \<Rightarrow> nat \<Rightarrow> nat list" where
  "neighbors_of m index =
     sort (map (\<lambda>c. the (inverse_' m c))
       (filter (other_module m index)
         (neighbor_ids (depth (lookup_' m ! index)) (ieta (lookup_' m ! index))
            (int (iphi (lookup_' m ! index))))))"


text \<open>
  The neighbours of a module, as the increasing list of the neighbours of its channels,
  and what the two caches hold once their flags are set.
\<close>

definition hpd_neighbors_of :: "HBHEChannelMap \<Rightarrow> nat \<Rightarrow> nat list" where
  "hpd_neighbors_of m hpd =
     sorted_list_of_set (\<Union>chan \<in> set (hpd_channel_lookup_' m ! hpd). set (neighbors_of m chan))"

definition map_ok :: "HcalHPDRBXMap \<Rightarrow> HBHEChannelMap \<Rightarrow> bool" where
  "map_ok hw m \<longleftrightarrow>
     built hw m
   \<and> length (channel_neighbors_' m) = ChannelCount
   \<and> length (hpd_neighbors_' m) = NUM_HPDS hw
   \<and> (neighborInfoFilled_' m \<longrightarrow>
        channel_neighbors_' m = map (neighbors_of m) [0..<ChannelCount])
   \<and> (hpdNeighborsFilled_' m \<longrightarrow>
        hpd_neighbors_' m = map (hpd_neighbors_of m) [0..<NUM_HPDS hw])"


text \<open>
  The module-level neighbours in the words of the spec: the modules of the channel-level
  neighbours of the channels of the module, deduplicated and sorted.
\<close>

definition spec_moduleNeighbors :: "HBHEChannelMap \<Rightarrow> nat \<Rightarrow> nat list" where
  "spec_moduleNeighbors m hpd =
     sort (remdups (map (\<lambda>j. hpd_lookup_' m ! j)
       (concat (map (neighbors_of m) (hpd_channel_lookup_' m ! hpd)))))"

text \<open>
  The channel index and the vector of one row of a geometry file, a vector type with
  the unit vector of ROOT (the vector itself when its length is zero), and a geometry
  file that names every channel once, with the direction (0, 0, 1).
\<close>

definition row_index :: "HBHEChannelMap \<Rightarrow> 32 word \<times> 32 word \<times> 32 word \<times> 'v \<Rightarrow> error + nat" where
  "row_index chmap t =
     (case t of (r_ieta, r_iphi, r_depth, vec) \<Rightarrow>
        linearIndex chmap (unat r_depth) (sint r_ieta) (unat r_iphi))"

definition row_vector :: "32 word \<times> 32 word \<times> 32 word \<times> 'v \<Rightarrow> 'v" where
  "row_vector t = snd (snd (snd t))"

definition example_ops :: "(real \<times> real \<times> real) TVector3_ops" where
  "example_ops =
     \<lparr> zero_vector = (0, 0, 0),
       Unit = (\<lambda>(x, y, z).
         let tot2 = x * x + y * y + z * z;
             tot = (if tot2 > 0 then 1 / sqrt tot2 else 1)
         in (x * tot, y * tot, z * tot)) \<rparr>"

definition example_rows :: "(32 word \<times> 32 word \<times> 32 word \<times> (real \<times> real \<times> real)) list" where
  "example_rows =
     map (\<lambda>c. (word_of_int (ieta c), word_of_nat (iphi c), word_of_nat (depth c), (0, 0, 1)))
       channel_enumeration"


text \<open>A second row for channel 0, with another direction.\<close>

definition duplicate_row :: "32 word \<times> 32 word \<times> 32 word \<times> (real \<times> real \<times> real)" where
  "duplicate_row = (- 29, 1, 1, (0, 1, 0))"

text \<open>A pulse record to run \<open>energy\<close> on, with integer samples.\<close>

definition example_helper :: "int NoiseTreeHelper" where
  "example_helper =
     \<lparr> PulseCount = 1, Charge = (\<lambda>idx t. int t), Pedestal = (\<lambda>idx t. 1), Gain = (\<lambda>idx t. 2),
       eMinTS_' = 3, eMaxTS_' = 8 \<rparr>"

section \<open>The enumeration\<close>

lemma half_phi_eq: "half_phi = map (\<lambda>k. 2 * k + 1) [0..<36]"
  unfolding half_phi_def by code_simp

lemma length_half_phi: "length half_phi = 36"
  by (simp add: half_phi_eq)

lemma length_full_phi: "length full_phi = 72"
  by (simp add: full_phi_def)

lemma distinct_half_phi: "distinct half_phi"
  by (simp add: half_phi_eq distinct_map inj_on_def)

lemma distinct_full_phi: "distinct full_phi"
  by (simp add: full_phi_def)

lemma set_half_phi: "set half_phi = {p. odd p \<and> p < 72}"
proof -
  have "p \<in> set half_phi \<longleftrightarrow> odd p \<and> p < 72" for p
  proof
    assume "p \<in> set half_phi"
    then show "odd p \<and> p < 72" by (auto simp: half_phi_eq)
  next
    assume a: "odd p \<and> p < 72"
    then obtain k where "p = 2 * k + 1" by (auto elim: oddE)
    with a show "p \<in> set half_phi" by (auto simp: half_phi_eq)
  qed
  then show ?thesis by blast
qed

lemma set_full_phi: "set full_phi = {p. 1 \<le> p \<and> p \<le> 72}"
  by (auto simp: full_phi_def)

lemma length_rings: "length (rings d etas phis) = length etas * length phis"
  by (induction etas) (simp_all add: rings_def)

lemma set_rings:
  "set (rings d etas phis) = {c. depth c = d \<and> ieta c \<in> set etas \<and> iphi c \<in> set phis}"
proof -
  have "c \<in> set (rings d etas phis) \<longleftrightarrow> depth c = d \<and> ieta c \<in> set etas \<and> iphi c \<in> set phis" for c
    by (cases c) (auto simp: rings_def)
  then show ?thesis by blast
qed

lemma distinct_rings:
  "distinct etas \<Longrightarrow> distinct phis \<Longrightarrow> distinct (rings d etas phis)"
proof (induction etas)
  case Nil
  then show ?case by (simp add: rings_def)
next
  case (Cons e etas)
  have "rings d (e # etas) phis = map (\<lambda>phi. HBHEChannelId d e phi) phis @ rings d etas phis"
    by (simp add: rings_def)
  moreover have "distinct (map (\<lambda>phi. HBHEChannelId d e phi) phis)"
    using Cons.prems by (simp add: distinct_map inj_on_def)
  moreover have "set (map (\<lambda>phi. HBHEChannelId d e phi) phis) \<inter> set (rings d etas phis) = {}"
    using Cons.prems by (auto simp: set_rings)
  ultimately show ?case using Cons by simp
qed

lemma central_etas: "filter (\<lambda>eta. eta \<noteq> 0) [-20..20] = [-20..-1] @ [1..20::int]"
proof -
  have "[-20..20::int] = [-20..0 - 1] @ 0 # [0 + 1..20]"
    by (rule upto_split3) simp_all
  then have "[-20..20::int] = [-20..-1] @ 0 # [1..20]" by simp
  then show ?thesis by (simp del: upto_rec_numeral)
qed

lemma length_channel_enumeration: "length channel_enumeration = 5184"
  by (simp add: channel_enumeration_def length_rings length_half_phi length_full_phi central_etas
      del: upto_rec_numeral)

lemma in_channel_enumeration:
  "c \<in> set channel_enumeration \<longleftrightarrow>
     (depth c = 1 \<and> ieta c \<in> {-29..-21} \<and> odd (iphi c) \<and> iphi c < 72)
   \<or> (depth c = 1 \<and> ieta c \<in> {-20..-1} \<union> {1..20} \<and> 1 \<le> iphi c \<and> iphi c \<le> 72)
   \<or> (depth c = 1 \<and> ieta c \<in> {21..29} \<and> odd (iphi c) \<and> iphi c < 72)
   \<or> (depth c = 2 \<and> ieta c \<in> {-29..-21} \<and> odd (iphi c) \<and> iphi c < 72)
   \<or> (depth c = 2 \<and> ieta c \<in> {-20..-18} \<and> 1 \<le> iphi c \<and> iphi c \<le> 72)
   \<or> (depth c = 2 \<and> ieta c \<in> {-16..-15} \<and> 1 \<le> iphi c \<and> iphi c \<le> 72)
   \<or> (depth c = 2 \<and> ieta c \<in> {15..16} \<and> 1 \<le> iphi c \<and> iphi c \<le> 72)
   \<or> (depth c = 2 \<and> ieta c \<in> {18..20} \<and> 1 \<le> iphi c \<and> iphi c \<le> 72)
   \<or> (depth c = 2 \<and> ieta c \<in> {21..29} \<and> odd (iphi c) \<and> iphi c < 72)
   \<or> (depth c = 3 \<and> ieta c \<in> {-28..-27} \<and> odd (iphi c) \<and> iphi c < 72)
   \<or> (depth c = 3 \<and> ieta c \<in> {-16..-16} \<and> 1 \<le> iphi c \<and> iphi c \<le> 72)
   \<or> (depth c = 3 \<and> ieta c \<in> {16..16} \<and> 1 \<le> iphi c \<and> iphi c \<le> 72)
   \<or> (depth c = 3 \<and> ieta c \<in> {27..28} \<and> odd (iphi c) \<and> iphi c < 72)"
  unfolding channel_enumeration_def central_etas set_append set_rings set_half_phi set_full_phi
    set_upto Un_iff mem_Collect_eq
  by (simp only: disj_assoc)

lemma distinct_channel_enumeration: "distinct channel_enumeration"
  unfolding channel_enumeration_def central_etas
  by (simp add: distinct_rings distinct_half_phi distinct_full_phi set_rings del: upto_rec_numeral)
     (auto simp del: upto_rec_numeral)

section \<open>The constructor loop\<close>

lemma channel_modules_bound:
  "channel_modules hw cid = Inr (h, r) \<Longrightarrow> h < NUM_HPDS hw \<and> r < NUM_RBXS hw"
  by (auto simp: channel_modules_def Let_def split: sum.splits if_splits)

lemma ctor_step_eq:
  "ctor_step hw m i =
     (case channel_modules hw (lookup_' m ! i) of
        Inl e \<Rightarrow> Inl e
      | Inr (h, r) \<Rightarrow> Inr (m\<lparr>
          inverse_' := (inverse_' m)(lookup_' m ! i \<mapsto> i),
          hpd_lookup_' := (hpd_lookup_' m)[i := h],
          chan_in_hpd_lookup_' := (chan_in_hpd_lookup_' m)[i := length (hpd_channel_lookup_' m ! h)],
          hpd_channel_lookup_' := (hpd_channel_lookup_' m)[h := hpd_channel_lookup_' m ! h @ [i]],
          rbx_lookup_' := (rbx_lookup_' m)[i := r],
          chan_in_rbx_lookup_' := (chan_in_rbx_lookup_' m)[i := length (rbx_channel_lookup_' m ! r)],
          rbx_channel_lookup_' := (rbx_channel_lookup_' m)[r := rbx_channel_lookup_' m ! r @ [i]]\<rparr>))"
  by (simp add: ctor_step_def channel_modules_def Let_def split: sum.splits)

lemma for_each_invariant:
  assumes "for_each body s xs = Inr s'" and "P s"
    and "\<And>s x s'. x \<in> set xs \<Longrightarrow> P s \<Longrightarrow> body s x = Inr s' \<Longrightarrow> P s'"
  shows "P s'"
  using assms
proof (induction xs arbitrary: s)
  case Nil
  then show ?case by simp
next
  case (Cons x xs)
  from Cons.prems(1) obtain s1 where b: "body s x = Inr s1" and r: "for_each body s1 xs = Inr s'"
    by (auto split: sum.splits)
  have "P s1" by (rule Cons.prems(3) [of x s s1]) (use Cons.prems(2) b in simp_all)
  show ?case
  proof (rule Cons.IH [OF r \<open>P s1\<close>])
    fix s x' s'
    assume "x' \<in> set xs" "P s" "body s x' = Inr s'"
    then show "P s'" using Cons.prems(3) [of x' s s'] by simp
  qed
qed

lemma for_each_succeeds:
  assumes "P s"
    and "\<And>s x. x \<in> set xs \<Longrightarrow> P s \<Longrightarrow> \<exists>s'. body s x = Inr s' \<and> P s'"
  shows "\<exists>s'. for_each body s xs = Inr s' \<and> P s'"
  using assms
proof (induction xs arbitrary: s)
  case Nil
  then show ?case by simp
next
  case (Cons x xs)
  from Cons.prems obtain s1 where b: "body s x = Inr s1" and p: "P s1"
    by (meson list.set_intros(1))
  have "\<exists>s'. for_each body s1 xs = Inr s' \<and> P s'"
    by (rule Cons.IH [OF p]) (use Cons.prems(2) in auto)
  then show ?case using b by simp
qed

text \<open>Frame: the constructor loop leaves the enumeration and the caches alone.\<close>

lemma ctor_loop_frame:
  assumes "for_each (ctor_step hw) m xs = Inr m'"
  shows "lookup_' m' = lookup_' m \<and> channel_neighbors_' m' = channel_neighbors_' m
       \<and> neighborInfoFilled_' m' = neighborInfoFilled_' m
       \<and> hpd_neighbors_' m' = hpd_neighbors_' m
       \<and> hpdNeighborsFilled_' m' = hpdNeighborsFilled_' m
       \<and> length (hpd_lookup_' m') = length (hpd_lookup_' m)
       \<and> length (hpd_channel_lookup_' m') = length (hpd_channel_lookup_' m)"
  by (rule for_each_invariant [OF assms, where P = "\<lambda>s. lookup_' s = lookup_' m \<and> channel_neighbors_' s = channel_neighbors_' m
       \<and> neighborInfoFilled_' s = neighborInfoFilled_' m
       \<and> hpd_neighbors_' s = hpd_neighbors_' m
       \<and> hpdNeighborsFilled_' s = hpdNeighborsFilled_' m
       \<and> length (hpd_lookup_' s) = length (hpd_lookup_' m)
       \<and> length (hpd_channel_lookup_' s) = length (hpd_channel_lookup_' m)"])
     (auto simp: ctor_step_eq split: sum.splits)

lemma ctor_loop_inverse:
  "for_each (ctor_step hw) m xs = Inr m' \<Longrightarrow>
   inverse_' m' = fold (\<lambda>i f. f(lookup_' m ! i \<mapsto> i)) xs (inverse_' m)"
proof (induction xs arbitrary: m)
  case Nil
  then show ?case by simp
next
  case (Cons x xs)
  from Cons.prems obtain m1 where s: "ctor_step hw m x = Inr m1"
    and r: "for_each (ctor_step hw) m1 xs = Inr m'"
    by (auto split: sum.splits)
  from s have "lookup_' m1 = lookup_' m" "inverse_' m1 = (inverse_' m)(lookup_' m ! x \<mapsto> x)"
    by (auto simp: ctor_step_eq split: sum.splits)
  with Cons.IH [OF r] show ?case by simp
qed

lemma ctor_loop_hpd_lookup:
  "for_each (ctor_step hw) m xs = Inr m' \<Longrightarrow> i < length (hpd_lookup_' m) \<Longrightarrow>
   hpd_lookup_' m' ! i =
     (if i \<in> set xs then hpd_of hw (lookup_' m ! i) else hpd_lookup_' m ! i)"
proof (induction xs arbitrary: m)
  case Nil
  then show ?case by simp
next
  case (Cons x xs)
  from Cons.prems(1) obtain m1 where s: "ctor_step hw m x = Inr m1"
    and r: "for_each (ctor_step hw) m1 xs = Inr m'"
    by (auto split: sum.splits)
  from s have l: "lookup_' m1 = lookup_' m"
    and h: "hpd_lookup_' m1 = (hpd_lookup_' m)[x := hpd_of hw (lookup_' m ! x)]"
    by (auto simp: ctor_step_eq hpd_of_def split: sum.splits)
  have "i < length (hpd_lookup_' m1)" using h Cons.prems(2) by simp
  from Cons.IH [OF r this] show ?case using l h Cons.prems(2) by (auto simp: nth_list_update)
qed

lemma ctor_loop_hpd_channel_lookup:
  "for_each (ctor_step hw) m xs = Inr m' \<Longrightarrow> length (hpd_channel_lookup_' m) = NUM_HPDS hw \<Longrightarrow>
   h < NUM_HPDS hw \<Longrightarrow>
   hpd_channel_lookup_' m' ! h =
     hpd_channel_lookup_' m ! h @ filter (\<lambda>i. hpd_of hw (lookup_' m ! i) = h) xs"
proof (induction xs arbitrary: m)
  case Nil
  then show ?case by simp
next
  case (Cons x xs)
  from Cons.prems(1) obtain m1 where s: "ctor_step hw m x = Inr m1"
    and r: "for_each (ctor_step hw) m1 xs = Inr m'"
    by (auto split: sum.splits)
  from s obtain hx rx where cm: "channel_modules hw (lookup_' m ! x) = Inr (hx, rx)"
    by (auto simp: ctor_step_eq split: sum.splits)
  then have hx: "hx < NUM_HPDS hw" "hpd_of hw (lookup_' m ! x) = hx"
    by (auto simp: hpd_of_def dest: channel_modules_bound)
  from s cm have l: "lookup_' m1 = lookup_' m"
    and c: "hpd_channel_lookup_' m1 = (hpd_channel_lookup_' m)[hx := hpd_channel_lookup_' m ! hx @ [x]]"
    by (auto simp: ctor_step_eq)
  have len: "length (hpd_channel_lookup_' m1) = NUM_HPDS hw"
    using c Cons.prems(2) by simp
  show ?case
    using Cons.IH [OF r len Cons.prems(3)] l c hx Cons.prems(2,3)
    by (auto simp: nth_list_update)
qed

lemma ctor_loop_succeeds:
  assumes "\<forall>i \<in> set xs. \<exists>p. channel_modules hw (lookup_' m ! i) = Inr p"
  shows "\<exists>m'. for_each (ctor_step hw) m xs = Inr m'"
proof -
  have "\<exists>m'. for_each (ctor_step hw) m xs = Inr m' \<and> lookup_' m' = lookup_' m"
    by (rule for_each_succeeds [where P = "\<lambda>s. lookup_' s = lookup_' m"])
       (use assms in \<open>auto simp: ctor_step_eq split: sum.splits\<close>)
  then show ?thesis by blast
qed

section \<open>The constructed map\<close>

lemma fold_inverse_other:
  "c \<notin> (\<lambda>i. L ! i) ` set xs \<Longrightarrow> fold (\<lambda>i f. f(L ! i \<mapsto> i)) xs f0 c = f0 c"
  by (induction xs arbitrary: f0) auto

lemma fold_inverse_nth:
  "distinct L \<Longrightarrow> \<forall>j \<in> set xs. j < length L \<Longrightarrow> i \<in> set xs \<Longrightarrow>
   fold (\<lambda>i f. f(L ! i \<mapsto> i)) xs f0 (L ! i) = Some i"
proof (induction xs arbitrary: f0)
  case Nil
  then show ?case by simp
next
  case (Cons x xs)
  show ?case
  proof (cases "i \<in> set xs")
    case True
    then show ?thesis using Cons by simp
  next
    case False
    then have ix: "i = x" using Cons.prems(3) by simp
    have "L ! x \<notin> (\<lambda>i. L ! i) ` set xs"
      using Cons.prems(1,2) False ix by (auto simp: nth_eq_iff_index_eq)
    then have "fold (\<lambda>i f. f(L ! i \<mapsto> i)) xs (f0(L ! x \<mapsto> x)) (L ! x) = (f0(L ! x \<mapsto> x)) (L ! x)"
      by (rule fold_inverse_other)
    then show ?thesis using ix by (simp add: fun_upd_def)
  qed
qed

lemma ctor_Inr:
  "HBHEChannelMap_ctor hw = Inr m \<Longrightarrow>
   for_each (ctor_step hw) (initial_map hw) [0..<ChannelCount] = Inr m"
  by (simp add: HBHEChannelMap_ctor_def split: if_splits)

lemma ctor_lookup: "HBHEChannelMap_ctor hw = Inr m \<Longrightarrow> lookup_' m = channel_enumeration"
  by (drule ctor_Inr, drule ctor_loop_frame) (simp add: initial_map_def)

lemma ctor_caches:
  "HBHEChannelMap_ctor hw = Inr m \<Longrightarrow>
     channel_neighbors_' m = replicate ChannelCount [] \<and> \<not> neighborInfoFilled_' m
   \<and> hpd_neighbors_' m = replicate (NUM_HPDS hw) [] \<and> \<not> hpdNeighborsFilled_' m
   \<and> length (hpd_lookup_' m) = ChannelCount
   \<and> length (hpd_channel_lookup_' m) = NUM_HPDS hw"
  by (drule ctor_Inr, drule ctor_loop_frame) (simp add: initial_map_def)

lemma ctor_inverse:
  assumes "HBHEChannelMap_ctor hw = Inr m"
  shows "inverse_' m c = Some i \<longleftrightarrow> i < ChannelCount \<and> channel_enumeration ! i = c"
proof -
  let ?L = channel_enumeration
  have inv: "inverse_' m = fold (\<lambda>i f. f(?L ! i \<mapsto> i)) [0..<ChannelCount] Map.empty"
    using ctor_loop_inverse [OF ctor_Inr [OF assms]] by (simp add: initial_map_def)
  have len: "length ?L = ChannelCount"
    by (simp add: length_channel_enumeration ChannelCount_def)
  have hit: "inverse_' m (?L ! j) = Some j" if "j < ChannelCount" for j
    unfolding inv using that len
    by (intro fold_inverse_nth) (simp_all add: distinct_channel_enumeration)
  show ?thesis
  proof
    assume s: "inverse_' m c = Some i"
    have "c \<in> (\<lambda>i. ?L ! i) ` set [0..<ChannelCount]"
    proof (rule ccontr)
      assume "c \<notin> (\<lambda>i. ?L ! i) ` set [0..<ChannelCount]"
      then have "inverse_' m c = None" unfolding inv by (simp add: fold_inverse_other)
      with s show False by simp
    qed
    then obtain j where j: "j < ChannelCount" "c = ?L ! j" by auto
    with hit [of j] s show "i < ChannelCount \<and> ?L ! i = c" by simp
  next
    assume "i < ChannelCount \<and> ?L ! i = c"
    then show "inverse_' m c = Some i" using hit [of i] by auto
  qed
qed

lemma ctor_inverse_None:
  assumes "HBHEChannelMap_ctor hw = Inr m"
  shows "inverse_' m c = None \<longleftrightarrow> c \<notin> set channel_enumeration"
proof -
  have "c \<in> set channel_enumeration \<longleftrightarrow> (\<exists>i. inverse_' m c = Some i)"
    unfolding ctor_inverse [OF assms]
    by (auto simp: in_set_conv_nth length_channel_enumeration ChannelCount_def)
  then show ?thesis by auto
qed

lemma ctor_hpd_lookup:
  assumes "HBHEChannelMap_ctor hw = Inr m" and "i < ChannelCount"
  shows "hpd_lookup_' m ! i = hpd_of hw (channel_enumeration ! i)"
  using ctor_loop_hpd_lookup [OF ctor_Inr [OF assms(1)], of i] assms(2)
  by (simp add: initial_map_def)

lemma ctor_hpd_channel_lookup:
  assumes "HBHEChannelMap_ctor hw = Inr m" and "h < NUM_HPDS hw"
  shows "hpd_channel_lookup_' m ! h = filter (\<lambda>i. hpd_lookup_' m ! i = h) [0..<ChannelCount]"
proof -
  have "hpd_channel_lookup_' m ! h =
          filter (\<lambda>i. hpd_of hw (channel_enumeration ! i) = h) [0..<ChannelCount]"
    using ctor_loop_hpd_channel_lookup [OF ctor_Inr [OF assms(1)] _ assms(2)] assms(2)
    by (simp add: initial_map_def)
  also have "\<dots> = filter (\<lambda>i. hpd_lookup_' m ! i = h) [0..<ChannelCount]"
    by (rule filter_cong) (simp_all add: ctor_hpd_lookup [OF assms(1)])
  finally show ?thesis .
qed

lemma ctor_succeeds:
  assumes "\<forall>c \<in> set channel_enumeration. \<exists>p. channel_modules hw c = Inr p"
  shows "\<exists>m. HBHEChannelMap_ctor hw = Inr m"
proof -
  have "\<forall>i \<in> set [0..<ChannelCount]. \<exists>p. channel_modules hw (lookup_' (initial_map hw) ! i) = Inr p"
    using assms by (simp add: initial_map_def length_channel_enumeration ChannelCount_def)
  from ctor_loop_succeeds [OF this] show ?thesis
    by (simp add: HBHEChannelMap_ctor_def length_channel_enumeration ChannelCount_def)
qed

lemma channel_mem_bounds:
  "c \<in> set channel_enumeration \<Longrightarrow>
   1 \<le> depth c \<and> depth c \<le> 3 \<and> \<bar>ieta c\<bar> \<le> 29 \<and> ieta c \<noteq> 0 \<and> (\<bar>ieta c\<bar> = 29 \<longrightarrow> depth c \<le> 2)
   \<and> 1 \<le> iphi c \<and> iphi c \<le> 72"
  unfolding in_channel_enumeration by (elim disjE) (auto elim: oddE)

lemma getSubdetector_enumerated:
  "c \<in> set channel_enumeration \<Longrightarrow> \<exists>sub. getSubdetector (depth c) (ieta c) = Inr sub"
  by (drule channel_mem_bounds) (auto simp: getSubdetector_def Let_def)

section \<open>What the queries leave unchanged\<close>

lemma fill_channel_neighbors_static:
  "fill_channel_neighbors m i = Inr m' \<Longrightarrow>
   static_part m' = static_part m \<and> hpd_neighbors_' m' = hpd_neighbors_' m
   \<and> hpdNeighborsFilled_' m' = hpdNeighborsFilled_' m
   \<and> neighborInfoFilled_' m' = neighborInfoFilled_' m
   \<and> length (channel_neighbors_' m') = length (channel_neighbors_' m)"
  by (auto simp: fill_channel_neighbors_def static_part_def split: sum.splits)

lemma channel_query_static:
  assumes "channelNeigborsFromOtherHPDs m index = Inr (m', ns)"
  shows "static_part m' = static_part m \<and> hpd_neighbors_' m' = hpd_neighbors_' m
       \<and> hpdNeighborsFilled_' m' = hpdNeighborsFilled_' m
       \<and> length (channel_neighbors_' m') = length (channel_neighbors_' m)"
proof (cases "neighborInfoFilled_' m")
  case True
  with assms show ?thesis
    by (auto simp: channelNeigborsFromOtherHPDs_def split: if_splits)
next
  case False
  with assms obtain m1 where l: "for_each fill_channel_neighbors m [0..<ChannelCount] = Inr m1"
    and m': "m' = m1\<lparr>neighborInfoFilled_' := True\<rparr>"
    by (auto simp: channelNeigborsFromOtherHPDs_def split: if_splits sum.splits)
  have "static_part m1 = static_part m \<and> hpd_neighbors_' m1 = hpd_neighbors_' m
       \<and> hpdNeighborsFilled_' m1 = hpdNeighborsFilled_' m
       \<and> length (channel_neighbors_' m1) = length (channel_neighbors_' m)"
    by (rule for_each_invariant [OF l]) (auto dest: fill_channel_neighbors_static)
  then show ?thesis by (simp add: m' static_part_def)
qed

lemma collect_neighbors_static:
  "collect_neighbors s chan = Inr s' \<Longrightarrow>
   static_part (fst s') = static_part (fst s) \<and> hpd_neighbors_' (fst s') = hpd_neighbors_' (fst s)
   \<and> hpdNeighborsFilled_' (fst s') = hpdNeighborsFilled_' (fst s)
   \<and> length (channel_neighbors_' (fst s')) = length (channel_neighbors_' (fst s))"
  by (auto simp: collect_neighbors_def split: sum.splits dest: channel_query_static)

lemma calculateHPDNeighbors_static:
  assumes "calculateHPDNeighbors m hpd = Inr (m', vec)"
  shows "static_part m' = static_part m \<and> hpd_neighbors_' m' = hpd_neighbors_' m
       \<and> hpdNeighborsFilled_' m' = hpdNeighborsFilled_' m
       \<and> length (channel_neighbors_' m') = length (channel_neighbors_' m)"
proof -
  from assms obtain st where l: "for_each collect_neighbors (m, []) (hpd_channel_lookup_' m ! hpd) = Inr (m', st)"
    by (auto simp: calculateHPDNeighbors_def split: sum.splits)
  have "static_part (fst (m', st)) = static_part m \<and> hpd_neighbors_' (fst (m', st)) = hpd_neighbors_' m
       \<and> hpdNeighborsFilled_' (fst (m', st)) = hpdNeighborsFilled_' m
       \<and> length (channel_neighbors_' (fst (m', st))) = length (channel_neighbors_' m)"
    by (rule for_each_invariant [OF l]) (auto dest: collect_neighbors_static)
  then show ?thesis by simp
qed

lemma fill_hpd_neighbors_static:
  "fill_hpd_neighbors m i = Inr m' \<Longrightarrow>
   static_part m' = static_part m \<and> length (hpd_neighbors_' m') = length (hpd_neighbors_' m)
   \<and> hpdNeighborsFilled_' m' = hpdNeighborsFilled_' m
   \<and> length (channel_neighbors_' m') = length (channel_neighbors_' m)"
  by (auto simp: fill_hpd_neighbors_def static_part_def split: sum.splits prod.splits
      dest!: calculateHPDNeighbors_static)

lemma module_query_static:
  assumes "getHPDNeigbors hw m hpd = Inr (m', ns)"
  shows "static_part m' = static_part m \<and> length (hpd_neighbors_' m') = length (hpd_neighbors_' m)
       \<and> length (channel_neighbors_' m') = length (channel_neighbors_' m)"
proof (cases "hpdNeighborsFilled_' m")
  case True
  with assms show ?thesis
    by (auto simp: getHPDNeigbors_def Let_def split: if_splits)
next
  case False
  with assms obtain m1 where l: "for_each fill_hpd_neighbors m [0..<NUM_HPDS hw] = Inr m1"
    and m': "m' = m1\<lparr>hpdNeighborsFilled_' := True\<rparr>"
    by (auto simp: getHPDNeigbors_def Let_def split: if_splits sum.splits)
  have "static_part m1 = static_part m \<and> length (hpd_neighbors_' m1) = length (hpd_neighbors_' m)
       \<and> length (channel_neighbors_' m1) = length (channel_neighbors_' m)"
    by (rule for_each_invariant [OF l]) (auto dest: fill_hpd_neighbors_static)
  then show ?thesis by (simp add: m' static_part_def)
qed

lemma reachable_static:
  "reachable hw m \<Longrightarrow>
   \<exists>m0. HBHEChannelMap_ctor hw = Inr m0 \<and> static_part m = static_part m0
      \<and> length (channel_neighbors_' m) = ChannelCount
      \<and> length (hpd_neighbors_' m) = NUM_HPDS hw"
proof (induction rule: reachable.induct)
  case (constructed m)
  then show ?case using ctor_caches [OF constructed] by auto
next
  case (channel_query m index m' ns)
  then show ?case by (auto dest!: channel_query_static)
next
  case (module_query m hpd m' ns)
  then show ?case by (auto dest!: module_query_static)
qed

lemma reachable_built: "reachable hw m \<Longrightarrow> built hw m"
  by (auto dest!: reachable_static simp: built_def)

lemma built_lookup: "built hw m \<Longrightarrow> lookup_' m = channel_enumeration"
  by (auto simp: built_def static_part_def ctor_lookup)

lemma built_inverse:
  "built hw m \<Longrightarrow>
   inverse_' m c = Some i \<longleftrightarrow> i < ChannelCount \<and> channel_enumeration ! i = c"
  by (auto simp: built_def static_part_def ctor_inverse)

lemma built_inverse_None:
  "built hw m \<Longrightarrow> inverse_' m c = None \<longleftrightarrow> c \<notin> set channel_enumeration"
  by (auto simp: built_def static_part_def ctor_inverse_None)

lemma built_hpd_lookup_length: "built hw m \<Longrightarrow> length (hpd_lookup_' m) = ChannelCount"
  by (auto simp: built_def static_part_def dest: ctor_caches)

lemma built_hpd_channel_lookup:
  "built hw m \<Longrightarrow> h < NUM_HPDS hw \<Longrightarrow>
   hpd_channel_lookup_' m ! h = filter (\<lambda>i. hpd_lookup_' m ! i = h) [0..<ChannelCount]"
  by (auto simp: built_def static_part_def ctor_hpd_channel_lookup)

lemma built_nth_mem:
  "built hw m \<Longrightarrow> index < ChannelCount \<Longrightarrow> lookup_' m ! index \<in> set channel_enumeration"
  by (simp add: built_lookup length_channel_enumeration ChannelCount_def)

lemma reachable_lookup: "reachable hw m \<Longrightarrow> lookup_' m = channel_enumeration"
  by (rule built_lookup) (rule reachable_built)

lemma reachable_inverse:
  "reachable hw m \<Longrightarrow>
   inverse_' m c = Some i \<longleftrightarrow> i < ChannelCount \<and> channel_enumeration ! i = c"
  by (rule built_inverse) (rule reachable_built)

lemma reachable_inverse_None:
  "reachable hw m \<Longrightarrow> inverse_' m c = None \<longleftrightarrow> c \<notin> set channel_enumeration"
  by (rule built_inverse_None) (rule reachable_built)

lemma example_ctor: "HBHEChannelMap_ctor example_hw = Inr example_map"
proof -
  have "\<forall>c \<in> set channel_enumeration. \<exists>p. channel_modules example_hw c = Inr p"
    by (auto simp: channel_modules_def example_hw_def Let_def split: sum.splits
        dest: getSubdetector_enumerated)
  from ctor_succeeds [OF this] show ?thesis by (auto simp: example_map_def)
qed

lemma example_reachable: "reachable example_hw example_map"
  by (rule reachable.constructed) (rule example_ctor)

section \<open>The neighbours of a channel\<close>

lemma shifts_eq:
  "shifts = [(-1, -1), (-1, 0), (-1, 1), (0, -1), (0, 0), (0, 1), (1, -1), (1, 0), (1, 1)]"
proof -
  have "[-1..1::int] = [-1, 0, 1]" by (simp add: upto.simps)
  then show ?thesis by (simp add: shifts_def)
qed

lemma neighbor_ids_eq:
  "neighbor_ids dep eta0 phi0 =
     [HBHEChannelId dep (shifted_eta eta0 (-1)) (nat (wrapped_phi (phi0 - 1))),
      HBHEChannelId dep (shifted_eta eta0 (-1)) (nat (wrapped_phi phi0)),
      HBHEChannelId dep (shifted_eta eta0 (-1)) (nat (wrapped_phi (phi0 + 1))),
      HBHEChannelId dep (shifted_eta eta0 0) (nat (wrapped_phi (phi0 - 1))),
      HBHEChannelId dep (shifted_eta eta0 0) (nat (wrapped_phi (phi0 + 1))),
      HBHEChannelId dep (shifted_eta eta0 1) (nat (wrapped_phi (phi0 - 1))),
      HBHEChannelId dep (shifted_eta eta0 1) (nat (wrapped_phi phi0)),
      HBHEChannelId dep (shifted_eta eta0 1) (nat (wrapped_phi (phi0 + 1)))]"
  by (simp add: neighbor_ids_def shifts_eq)

lemma length_neighbor_ids: "length (neighbor_ids dep eta0 phi0) = 8"
  by (simp add: neighbor_ids_eq)

lemma shifted_eta_distinct:
  "shifted_eta eta0 (-1) \<noteq> shifted_eta eta0 0" "shifted_eta eta0 (-1) \<noteq> shifted_eta eta0 1"
  "shifted_eta eta0 0 \<noteq> shifted_eta eta0 1"
  by (auto simp: shifted_eta_def)

lemma wrapped_phi_distinct:
  assumes "1 \<le> phi0" "phi0 \<le> 72"
  shows "nat (wrapped_phi (phi0 - 1)) \<noteq> nat (wrapped_phi phi0)"
    "nat (wrapped_phi (phi0 - 1)) \<noteq> nat (wrapped_phi (phi0 + 1))"
    "nat (wrapped_phi phi0) \<noteq> nat (wrapped_phi (phi0 + 1))"
  using assms by (auto simp: wrapped_phi_def)

lemma distinct_neighbor_ids:
  assumes "1 \<le> phi0" "phi0 \<le> 72"
  shows "distinct (neighbor_ids dep eta0 phi0)"
  using shifted_eta_distinct [of eta0] wrapped_phi_distinct [OF assms]
  by (simp add: neighbor_ids_eq)


lemma for_each_append:
  assumes "\<And>acc x. x \<in> set xs \<Longrightarrow> body acc x = Inr (acc @ g x)"
  shows "for_each body acc xs = Inr (acc @ concat (map g xs))"
  using assms by (induction xs arbitrary: acc) simp_all

lemma concat_candidates:
  "concat (map (\<lambda>s. if fst s \<noteq> 0 \<or> snd s \<noteq> 0 then
        (case inverse_' m (HBHEChannelId dep (shifted_eta eta0 (fst s))
                 (nat (wrapped_phi (phi0 + snd s)))) of
           None \<Rightarrow> []
         | Some n \<Rightarrow> if hpd_lookup_' m ! index \<noteq> hpd_lookup_' m ! n then [n] else [])
        else []) xs)
   = map (\<lambda>c. the (inverse_' m c)) (filter (other_module m index)
       (map (\<lambda>s. HBHEChannelId dep (shifted_eta eta0 (fst s)) (nat (wrapped_phi (phi0 + snd s))))
          (filter (\<lambda>s. fst s \<noteq> 0 \<or> snd s \<noteq> 0) xs)))"
  by (induction xs) (auto simp: other_module_def split: option.splits)

lemma neighbor_candidate_eq:
  assumes "built hw m" and "1 \<le> phi0" and "phi0 \<le> 72" and "s \<in> set shifts"
  shows "neighbor_candidate m dep eta0 phi0 myHPD acc s =
     Inr (acc @ (if fst s \<noteq> 0 \<or> snd s \<noteq> 0 then
        (case inverse_' m (HBHEChannelId dep (shifted_eta eta0 (fst s))
                 (nat (wrapped_phi (phi0 + snd s)))) of
           None \<Rightarrow> []
         | Some n \<Rightarrow> if myHPD \<noteq> hpd_lookup_' m ! n then [n] else [])
        else []))"
proof -
  have r: "0 \<le> phi0 + snd s \<and> phi0 + snd s \<le> 73"
    using assms(2-4) by (auto simp: shifts_eq)
  have h: "getHPD m n = Inr (hpd_lookup_' m ! n)" if "inverse_' m c = Some n" for c n
    using that built_inverse [OF assms(1), of c n] by (simp add: getHPD_def)
  show ?thesis
    using r
    by (auto simp: neighbor_candidate_def Let_def shifted_eta_def wrapped_phi_def h
        split: option.splits)
qed

lemma calculateNeighborList_eq:
  assumes "built hw m" and "index < ChannelCount"
  shows "calculateNeighborList m index = Inr (neighbors_of m index)"
proof -
  let ?c = "lookup_' m ! index"
  have phi: "1 \<le> int (iphi ?c)" "int (iphi ?c) \<le> 72"
    using channel_mem_bounds [OF built_nth_mem [OF assms]] by auto
  let ?cands = "concat (map (\<lambda>s. if fst s \<noteq> 0 \<or> snd s \<noteq> 0 then
            (case inverse_' m (HBHEChannelId (depth ?c) (shifted_eta (ieta ?c) (fst s))
                 (nat (wrapped_phi (int (iphi ?c) + snd s)))) of
               None \<Rightarrow> []
             | Some n \<Rightarrow> if hpd_lookup_' m ! index \<noteq> hpd_lookup_' m ! n then [n] else [])
            else []) shifts)"
  have "for_each (neighbor_candidate m (depth ?c) (ieta ?c) (int (iphi ?c)) (hpd_lookup_' m ! index))
          [] shifts = Inr ([] @ ?cands)"
    by (rule for_each_append) (rule neighbor_candidate_eq [OF assms(1) phi])
  then have "calculateNeighborList m index = Inr (sort ?cands)"
    using assms(2) by (simp add: calculateNeighborList_def getHPD_def Let_def)
  moreover have "neighbors_of m index = sort ?cands"
    unfolding neighbors_of_def neighbor_ids_def concat_candidates ..
  ultimately show ?thesis by simp
qed

lemma length_neighbors_of: "length (neighbors_of m index) \<le> 8"
proof -
  have "length (neighbors_of m index)
        \<le> length (neighbor_ids (depth (lookup_' m ! index)) (ieta (lookup_' m ! index))
            (int (iphi (lookup_' m ! index))))"
    unfolding neighbors_of_def by simp
  then show ?thesis by (simp add: length_neighbor_ids)
qed

lemma set_neighbors_of:
  assumes "built hw m"
  shows "set (neighbors_of m index) =
     {j. j < ChannelCount
       \<and> lookup_' m ! j \<in> set (neighbor_ids (depth (lookup_' m ! index))
             (ieta (lookup_' m ! index)) (int (iphi (lookup_' m ! index))))
       \<and> hpd_lookup_' m ! j \<noteq> hpd_lookup_' m ! index}"
  (is "_ = {j. j < ChannelCount \<and> lookup_' m ! j \<in> set ?ids \<and> _}")
proof -
  have inv: "inverse_' m c = Some i \<longleftrightarrow> i < ChannelCount \<and> lookup_' m ! i = c" for c i
    using built_inverse [OF assms] by (simp add: built_lookup [OF assms])
  have "j \<in> set (neighbors_of m index) \<longleftrightarrow>
        j < ChannelCount \<and> lookup_' m ! j \<in> set ?ids
        \<and> hpd_lookup_' m ! j \<noteq> hpd_lookup_' m ! index" for j
  proof
    assume "j \<in> set (neighbors_of m index)"
    then obtain c where c: "c \<in> set ?ids" "other_module m index c" "j = the (inverse_' m c)"
      by (auto simp: neighbors_of_def)
    from c(2) obtain n where n: "inverse_' m c = Some n"
      "hpd_lookup_' m ! index \<noteq> hpd_lookup_' m ! n"
      by (auto simp: other_module_def split: option.splits)
    with c inv [of c n] show "j < ChannelCount \<and> lookup_' m ! j \<in> set ?ids
        \<and> hpd_lookup_' m ! j \<noteq> hpd_lookup_' m ! index"
      by auto
  next
    assume j: "j < ChannelCount \<and> lookup_' m ! j \<in> set ?ids
        \<and> hpd_lookup_' m ! j \<noteq> hpd_lookup_' m ! index"
    then have i: "inverse_' m (lookup_' m ! j) = Some j" by (simp add: inv)
    then have "other_module m index (lookup_' m ! j)"
      using j by (auto simp: other_module_def)
    with j i have "the (inverse_' m (lookup_' m ! j))
      \<in> (\<lambda>c. the (inverse_' m c)) ` set (filter (other_module m index) ?ids)"
      by (intro imageI) simp
    then show "j \<in> set (neighbors_of m index)"
      using i by (simp add: neighbors_of_def)
  qed
  then show ?thesis by blast
qed

lemma distinct_neighbors_of:
  assumes "built hw m" and "index < ChannelCount"
  shows "distinct (neighbors_of m index)"
proof -
  let ?c = "lookup_' m ! index"
  have phi: "1 \<le> int (iphi ?c)" "int (iphi ?c) \<le> 72"
    using channel_mem_bounds [OF built_nth_mem [OF assms]] by auto
  have inv: "inverse_' m c = Some i \<longleftrightarrow> i < ChannelCount \<and> lookup_' m ! i = c" for c i
    using built_inverse [OF assms(1)] by (simp add: built_lookup [OF assms(1)])
  have "inj_on (\<lambda>c. the (inverse_' m c)) {c. other_module m index c}"
  proof (rule inj_onI)
    fix c c'
    assume a: "c \<in> {c. other_module m index c}" "c' \<in> {c. other_module m index c}"
      and e: "the (inverse_' m c) = the (inverse_' m c')"
    from a obtain n n' where n: "inverse_' m c = Some n" "inverse_' m c' = Some n'"
      by (auto simp: other_module_def split: option.splits)
    with e have "n = n'" by simp
    with n inv [of c n] inv [of c' n'] show "c = c'" by simp
  qed
  then have "inj_on (\<lambda>c. the (inverse_' m c))
     (set (filter (other_module m index) (neighbor_ids (depth ?c) (ieta ?c) (int (iphi ?c)))))"
    by (rule inj_on_subset) auto
  then show ?thesis
    unfolding neighbors_of_def
    by (simp add: distinct_map distinct_neighbor_ids [OF phi])
qed

lemma sorted_neighbors_of: "sorted (neighbors_of m index)"
  by (simp add: neighbors_of_def)

section \<open>The two caches\<close>

lemma neighbors_of_static:
  "static_part m' = static_part m \<Longrightarrow> neighbors_of m' = neighbors_of m"
  by (intro ext) (simp add: static_part_def neighbors_of_def other_module_def [abs_def]
      cong: option.case_cong)

lemma hpd_neighbors_of_static:
  "static_part m' = static_part m \<Longrightarrow> hpd_neighbors_of m' = hpd_neighbors_of m"
proof (intro ext)
  fix h
  assume s: "static_part m' = static_part m"
  then have "hpd_channel_lookup_' m' = hpd_channel_lookup_' m" by (simp add: static_part_def)
  then show "hpd_neighbors_of m' h = hpd_neighbors_of m h"
    by (simp add: hpd_neighbors_of_def neighbors_of_static [OF s])
qed

lemma built_static: "static_part m' = static_part m \<Longrightarrow> built hw m \<Longrightarrow> built hw m'"
  by (simp add: built_def)

lemma fold_update_upt:
  "k \<le> length T \<Longrightarrow> fold (\<lambda>i T. T[i := f i]) [0..<k] T = map f [0..<k] @ drop k T"
proof (induction k)
  case 0
  then show ?case by simp
next
  case (Suc k)
  then have "k < length T" by simp
  then have "(map f [0..<k] @ drop k T)[k := f k] = map f [0..<k] @ f k # drop (Suc k) T"
    by (simp add: list_update_append Cons_nth_drop_Suc [symmetric])
  with Suc show ?case by simp
qed

lemma fold_update_all:
  "length T = n \<Longrightarrow> fold (\<lambda>i T. T[i := f i]) [0..<n] T = map f [0..<n]"
  by (simp add: fold_update_upt)

lemma fill_channel_loop:
  assumes "built hw m" and "\<forall>i \<in> set xs. i < ChannelCount"
  shows "for_each fill_channel_neighbors m xs =
     Inr (m\<lparr>channel_neighbors_' :=
            fold (\<lambda>i T. T[i := neighbors_of m i]) xs (channel_neighbors_' m)\<rparr>)"
  using assms
proof (induction xs arbitrary: m)
  case Nil
  then show ?case by simp
next
  case (Cons x xs)
  let ?m1 = "m\<lparr>channel_neighbors_' := (channel_neighbors_' m)[x := neighbors_of m x]\<rparr>"
  have s: "static_part ?m1 = static_part m" by (simp add: static_part_def)
  have step: "fill_channel_neighbors m x = Inr ?m1"
    using Cons.prems by (simp add: fill_channel_neighbors_def calculateNeighborList_eq)
  have "for_each fill_channel_neighbors ?m1 xs =
     Inr (?m1\<lparr>channel_neighbors_' :=
            fold (\<lambda>i T. T[i := neighbors_of ?m1 i]) xs (channel_neighbors_' ?m1)\<rparr>)"
    by (rule Cons.IH) (use Cons.prems built_static [OF s] in auto)
  then show ?case using step by (simp add: neighbors_of_static [OF s])
qed

lemma channel_query_eq:
  assumes "map_ok hw m" and "index < ChannelCount"
  shows "channelNeigborsFromOtherHPDs m index =
     Inr (if neighborInfoFilled_' m then m
          else m\<lparr>channel_neighbors_' := map (neighbors_of m) [0..<ChannelCount],
                 neighborInfoFilled_' := True\<rparr>,
          neighbors_of m index)"
proof (cases "neighborInfoFilled_' m")
  case True
  then show ?thesis
    using assms by (simp add: channelNeigborsFromOtherHPDs_def map_ok_def)
next
  case False
  have "for_each fill_channel_neighbors m [0..<ChannelCount] =
     Inr (m\<lparr>channel_neighbors_' :=
            fold (\<lambda>i T. T[i := neighbors_of m i]) [0..<ChannelCount] (channel_neighbors_' m)\<rparr>)"
    by (rule fill_channel_loop [of hw]) (use assms in \<open>auto simp: map_ok_def\<close>)
  moreover have "fold (\<lambda>i T. T[i := neighbors_of m i]) [0..<ChannelCount] (channel_neighbors_' m)
      = map (neighbors_of m) [0..<ChannelCount]"
    by (rule fold_update_all) (use assms in \<open>simp add: map_ok_def\<close>)
  ultimately show ?thesis
    using False assms(2) by (simp add: channelNeigborsFromOtherHPDs_def)
qed

lemma channel_query_ok:
  assumes "map_ok hw m" and "channelNeigborsFromOtherHPDs m index = Inr (m', ns)"
  shows "map_ok hw m' \<and> static_part m' = static_part m \<and> ns = neighbors_of m index
       \<and> index < ChannelCount \<and> neighborInfoFilled_' m'
       \<and> hpd_neighbors_' m' = hpd_neighbors_' m \<and> hpdNeighborsFilled_' m' = hpdNeighborsFilled_' m"
proof -
  have i: "index < ChannelCount"
    using assms(2) by (auto simp: channelNeigborsFromOtherHPDs_def split: if_splits)
  note st = channel_query_static [OF assms(2)]
  from channel_query_eq [OF assms(1) i] assms(2)
  have m': "m' = (if neighborInfoFilled_' m then m
          else m\<lparr>channel_neighbors_' := map (neighbors_of m) [0..<ChannelCount],
                 neighborInfoFilled_' := True\<rparr>)" and ns: "ns = neighbors_of m index"
    by simp_all
  have s: "static_part m' = static_part m" using st by simp
  have cn: "neighborInfoFilled_' m'"
    "channel_neighbors_' m' = map (neighbors_of m) [0..<ChannelCount]"
    using assms(1) by (auto simp: m' map_ok_def)
  have "map_ok hw m'"
    using assms(1) st built_static [OF s, of hw] cn
    by (simp add: map_ok_def neighbors_of_static [OF s] hpd_neighbors_of_static [OF s])
  moreover have "neighborInfoFilled_' m'" by (simp add: m')
  ultimately show ?thesis using st ns i by simp
qed


lemma fold_insort_insert:
  fixes acc :: "nat list"
  shows "sorted acc \<Longrightarrow> distinct acc \<Longrightarrow>
    sorted (fold insort_insert xs acc) \<and> distinct (fold insort_insert xs acc)
    \<and> set (fold insort_insert xs acc) = set xs \<union> set acc"
  by (induction xs arbitrary: acc)
     (auto simp: sorted_insort_insert distinct_insort_insert set_insort_insert)

lemma collect_loop:
  assumes "map_ok hw m" and "\<forall>c \<in> set cs. c < ChannelCount" and "sorted acc" and "distinct acc"
  shows "\<exists>m' acc'. for_each collect_neighbors (m, acc) cs = Inr (m', acc')
     \<and> map_ok hw m' \<and> static_part m' = static_part m
     \<and> hpd_neighbors_' m' = hpd_neighbors_' m \<and> hpdNeighborsFilled_' m' = hpdNeighborsFilled_' m
     \<and> sorted acc' \<and> distinct acc'
     \<and> set acc' = set acc \<union> (\<Union>c \<in> set cs. set (neighbors_of m c))"
  using assms
proof (induction cs arbitrary: m acc)
  case Nil
  then show ?case by simp
next
  case (Cons c cs)
  have c: "c < ChannelCount" using Cons.prems(2) by simp
  obtain m1 where q: "channelNeigborsFromOtherHPDs m c = Inr (m1, neighbors_of m c)"
    using channel_query_eq [OF Cons.prems(1) c] by blast
  note ok = channel_query_ok [OF Cons.prems(1) q]
  let ?acc1 = "fold insort_insert (neighbors_of m c) acc"
  have step: "collect_neighbors (m, acc) c = Inr (m1, ?acc1)"
    by (simp add: collect_neighbors_def q)
  have s: "static_part m1 = static_part m" using ok by simp
  have acc1: "sorted ?acc1" "distinct ?acc1" "set ?acc1 = set (neighbors_of m c) \<union> set acc"
    using fold_insort_insert [OF Cons.prems(3,4)] by simp_all
  have "\<exists>m' acc'. for_each collect_neighbors (m1, ?acc1) cs = Inr (m', acc')
     \<and> map_ok hw m' \<and> static_part m' = static_part m1
     \<and> hpd_neighbors_' m' = hpd_neighbors_' m1 \<and> hpdNeighborsFilled_' m' = hpdNeighborsFilled_' m1
     \<and> sorted acc' \<and> distinct acc'
     \<and> set acc' = set ?acc1 \<union> (\<Union>c \<in> set cs. set (neighbors_of m1 c))"
    by (rule Cons.IH) (use ok Cons.prems(2) acc1 in simp_all)
  then obtain m' acc' where r: "for_each collect_neighbors (m1, ?acc1) cs = Inr (m', acc')"
    "map_ok hw m'" "static_part m' = static_part m1"
    "hpd_neighbors_' m' = hpd_neighbors_' m1" "hpdNeighborsFilled_' m' = hpdNeighborsFilled_' m1"
    "sorted acc'" "distinct acc'"
    "set acc' = set ?acc1 \<union> (\<Union>c \<in> set cs. set (neighbors_of m1 c))"
    by blast
  have "set acc' = set acc \<union> (\<Union>c \<in> set (c # cs). set (neighbors_of m c))"
    using r(8) acc1(3) by (auto simp: neighbors_of_static [OF s])
  moreover have "for_each collect_neighbors (m, acc) (c # cs) = Inr (m', acc')"
    using step r(1) by simp
  ultimately show ?case using r(2-7) ok by auto
qed

lemma built_module_channels:
  "built hw m \<Longrightarrow> h < NUM_HPDS hw \<Longrightarrow> \<forall>c \<in> set (hpd_channel_lookup_' m ! h). c < ChannelCount"
  by (simp add: built_hpd_channel_lookup)

lemma calculateHPDNeighbors_eq:
  assumes "map_ok hw m" and "h < NUM_HPDS hw"
  shows "\<exists>m'. calculateHPDNeighbors m h = Inr (m', hpd_neighbors_of m h)
     \<and> map_ok hw m' \<and> static_part m' = static_part m
     \<and> hpd_neighbors_' m' = hpd_neighbors_' m \<and> hpdNeighborsFilled_' m' = hpdNeighborsFilled_' m"
proof -
  let ?cs = "hpd_channel_lookup_' m ! h"
  have b: "built hw m" using assms(1) by (simp add: map_ok_def)
  from collect_loop [OF assms(1) built_module_channels [OF b assms(2)], of "[]"]
  obtain m' acc' where r: "for_each collect_neighbors (m, []) ?cs = Inr (m', acc')"
    "map_ok hw m'" "static_part m' = static_part m"
    "hpd_neighbors_' m' = hpd_neighbors_' m" "hpdNeighborsFilled_' m' = hpdNeighborsFilled_' m"
    "sorted acc'" "distinct acc'"
    "set acc' = (\<Union>c \<in> set ?cs. set (neighbors_of m c))"
    by auto
  have "acc' = hpd_neighbors_of m h"
    unfolding hpd_neighbors_of_def
    by (rule sorted_distinct_set_unique) (use r(6-8) in simp_all)
  moreover have "sort acc' = acc'" using r(6) by (rule sorted_sort_id)
  ultimately have "calculateHPDNeighbors m h = Inr (m', hpd_neighbors_of m h)"
    using r(1) by (simp add: calculateHPDNeighbors_def)
  then show ?thesis using r(2-5) by blast
qed

lemma fill_hpd_loop:
  assumes "map_ok hw m" and "\<forall>i \<in> set xs. i < NUM_HPDS hw" and "\<not> hpdNeighborsFilled_' m"
  shows "\<exists>m'. for_each fill_hpd_neighbors m xs = Inr m'
     \<and> map_ok hw m' \<and> static_part m' = static_part m \<and> \<not> hpdNeighborsFilled_' m'
     \<and> hpd_neighbors_' m' = fold (\<lambda>i T. T[i := hpd_neighbors_of m i]) xs (hpd_neighbors_' m)"
  using assms
proof (induction xs arbitrary: m)
  case Nil
  then show ?case by simp
next
  case (Cons x xs)
  have x: "x < NUM_HPDS hw" using Cons.prems(2) by simp
  from calculateHPDNeighbors_eq [OF Cons.prems(1) x]
  obtain m1 where c: "calculateHPDNeighbors m x = Inr (m1, hpd_neighbors_of m x)"
    "map_ok hw m1" "static_part m1 = static_part m"
    "hpd_neighbors_' m1 = hpd_neighbors_' m" "hpdNeighborsFilled_' m1 = hpdNeighborsFilled_' m"
    by blast
  let ?m2 = "m1\<lparr>hpd_neighbors_' := (hpd_neighbors_' m1)[x := hpd_neighbors_of m x]\<rparr>"
  have step: "fill_hpd_neighbors m x = Inr ?m2"
    by (simp add: fill_hpd_neighbors_def c(1))
  have s21: "static_part ?m2 = static_part m1" by (simp add: static_part_def)
  have s2: "static_part ?m2 = static_part m" using s21 c(3) by simp
  have nf: "\<not> hpdNeighborsFilled_' ?m2" using c(5) Cons.prems(3) by simp
  have ok2: "map_ok hw ?m2"
    using c(2) nf built_static [OF s21, of hw]
    by (simp add: map_ok_def neighbors_of_static [OF s21])
  have "\<exists>m'. for_each fill_hpd_neighbors ?m2 xs = Inr m'
     \<and> map_ok hw m' \<and> static_part m' = static_part ?m2 \<and> \<not> hpdNeighborsFilled_' m'
     \<and> hpd_neighbors_' m' = fold (\<lambda>i T. T[i := hpd_neighbors_of ?m2 i]) xs (hpd_neighbors_' ?m2)"
    by (rule Cons.IH [OF ok2 _ nf]) (use Cons.prems(2) in simp)
  then obtain m' where r: "for_each fill_hpd_neighbors ?m2 xs = Inr m'"
    "map_ok hw m'" "static_part m' = static_part ?m2" "\<not> hpdNeighborsFilled_' m'"
    "hpd_neighbors_' m' = fold (\<lambda>i T. T[i := hpd_neighbors_of ?m2 i]) xs (hpd_neighbors_' ?m2)"
    by blast
  have "hpd_neighbors_' m' =
      fold (\<lambda>i T. T[i := hpd_neighbors_of m i]) xs (hpd_neighbors_' ?m2)"
    using r(5) unfolding hpd_neighbors_of_static [OF s2] .
  then have "hpd_neighbors_' m' =
      fold (\<lambda>i T. T[i := hpd_neighbors_of m i]) (x # xs) (hpd_neighbors_' m)"
    using c(4) by simp
  moreover have "for_each fill_hpd_neighbors m (x # xs) = Inr m'"
    using step r(1) by simp
  moreover have "static_part m' = static_part m" using r(3) s2 by simp
  ultimately show ?case using r(2,4) by blast
qed

lemma module_query_eq:
  assumes "map_ok hw m" and "h < NUM_HPDS hw"
  shows "\<exists>m'. getHPDNeigbors hw m h = Inr (m', hpd_neighbors_of m h)
     \<and> map_ok hw m' \<and> static_part m' = static_part m \<and> hpdNeighborsFilled_' m'
     \<and> hpd_neighbors_' m' = map (hpd_neighbors_of m) [0..<NUM_HPDS hw]"
proof (cases "hpdNeighborsFilled_' m")
  case True
  then have "hpd_neighbors_' m = map (hpd_neighbors_of m) [0..<NUM_HPDS hw]"
    using assms(1) by (simp add: map_ok_def)
  then show ?thesis
    using True assms by (intro exI [of _ m]) (simp add: getHPDNeigbors_def)
next
  case False
  from fill_hpd_loop [OF assms(1) _ False, of "[0..<NUM_HPDS hw]"]
  obtain m1 where r: "for_each fill_hpd_neighbors m [0..<NUM_HPDS hw] = Inr m1"
    "map_ok hw m1" "static_part m1 = static_part m"
    "hpd_neighbors_' m1 =
       fold (\<lambda>i T. T[i := hpd_neighbors_of m i]) [0..<NUM_HPDS hw] (hpd_neighbors_' m)"
    by auto
  have t: "hpd_neighbors_' m1 = map (hpd_neighbors_of m) [0..<NUM_HPDS hw]"
    unfolding r(4) by (rule fold_update_all) (use assms(1) in \<open>simp add: map_ok_def\<close>)
  let ?m' = "m1\<lparr>hpdNeighborsFilled_' := True\<rparr>"
  have s': "static_part ?m' = static_part m1" by (simp add: static_part_def)
  have s: "static_part ?m' = static_part m" using s' r(3) by simp
  have "map_ok hw ?m'"
    using r(2) t built_static [OF s', of hw]
    by (simp add: map_ok_def neighbors_of_static [OF s'] hpd_neighbors_of_static [OF s]
        hpd_neighbors_of_static [OF r(3)])
  moreover have "getHPDNeigbors hw m h = Inr (?m', hpd_neighbors_of m h)"
    using False assms(2) r(1) t by (simp add: getHPDNeigbors_def)
  ultimately show ?thesis using s t by (intro exI [of _ ?m']) simp
qed

lemma ctor_map_ok: "HBHEChannelMap_ctor hw = Inr m \<Longrightarrow> map_ok hw m"
  using ctor_caches [of hw m] by (auto simp: map_ok_def built_def)

lemma reachable_map_ok: "reachable hw m \<Longrightarrow> map_ok hw m"
proof (induction rule: reachable.induct)
  case (constructed m)
  then show ?case by (rule ctor_map_ok)
next
  case (channel_query m index m' ns)
  then show ?case using channel_query_ok by blast
next
  case (module_query m hpd m' ns)
  from module_query(2) have "hpd < NUM_HPDS hw"
    by (auto simp: getHPDNeigbors_def Let_def split: if_splits)
  from module_query_eq [OF module_query(3) this] module_query(2)
  show ?case by auto
qed

section \<open>The neighbours of a set of channels\<close>

lemma candidates_loop:
  assumes "map_ok hw m" and "\<forall>c \<in> set cs. c < ChannelCount"
  shows "\<exists>m'. for_each collect_candidates (m, acc) cs
            = Inr (m', acc @ concat (map (neighbors_of m) cs))
     \<and> map_ok hw m' \<and> static_part m' = static_part m"
  using assms
proof (induction cs arbitrary: m acc)
  case Nil
  then show ?case by simp
next
  case (Cons c cs)
  have c: "c < ChannelCount" using Cons.prems(2) by simp
  obtain m1 where q: "channelNeigborsFromOtherHPDs m c = Inr (m1, neighbors_of m c)"
    using channel_query_eq [OF Cons.prems(1) c] by blast
  note ok = channel_query_ok [OF Cons.prems(1) q]
  have s: "static_part m1 = static_part m" using ok by simp
  have step: "collect_candidates (m, acc) c = Inr (m1, acc @ neighbors_of m c)"
    by (simp add: collect_candidates_def q length_neighbors_of)
  have "\<exists>m'. for_each collect_candidates (m1, acc @ neighbors_of m c) cs
            = Inr (m', (acc @ neighbors_of m c) @ concat (map (neighbors_of m1) cs))
     \<and> map_ok hw m' \<and> static_part m' = static_part m1"
    by (rule Cons.IH) (use ok Cons.prems(2) in simp_all)
  then show ?case
    using step s by (auto simp: neighbors_of_static [OF s])
qed

lemma distinct_remdups_adj_sorted:
  fixes xs :: "nat list"
  shows "sorted xs \<Longrightarrow> distinct (remdups_adj xs)"
  by (induction xs rule: remdups_adj.induct) (auto simp: less_le)

lemma channelSetNeighbors_result:
  assumes "reachable hw m" and "length input \<le> 18" and "\<forall>c \<in> set input. c < ChannelCount"
  shows "\<exists>m' out. channelSetNeighbors m input = Inr (m', out)
     \<and> sorted out \<and> distinct out
     \<and> set out = (\<Union>c \<in> set input. set (neighbors_of m c))"
proof -
  from candidates_loop [OF reachable_map_ok [OF assms(1)] assms(3), of "[]"]
  obtain m' where l: "for_each collect_candidates (m, []) input
            = Inr (m', concat (map (neighbors_of m) input))"
    by auto
  let ?out = "remdups_adj (sort (concat (map (neighbors_of m) input)))"
  have "channelSetNeighbors m input = Inr (m', ?out)"
    using assms(2) l by (simp add: channelSetNeighbors_def)
  moreover have "sorted ?out" by (simp add: sorted_remdups_adj)
  moreover have "distinct ?out" by (simp add: distinct_remdups_adj_sorted)
  moreover have "set ?out = (\<Union>c \<in> set input. set (neighbors_of m c))" by simp
  ultimately show ?thesis by blast
qed

section \<open>The example map\<close>

lemma nth_rings:
  assumes "i < length etas * length phis"
  shows "rings d etas phis ! i =
     HBHEChannelId d (etas ! (i div length phis)) (phis ! (i mod length phis))"
  using assms
proof (induction etas arbitrary: i)
  case Nil
  then show ?case by simp
next
  case (Cons e etas)
  have r: "rings d (e # etas) phis = map (\<lambda>phi. HBHEChannelId d e phi) phis @ rings d etas phis"
    by (simp add: rings_def)
  have pos: "0 < length phis" using Cons.prems by (cases phis) auto
  show ?case
  proof (cases "i < length phis")
    case True
    then show ?thesis by (simp add: r nth_append)
  next
    case False
    then have "i - length phis < length etas * length phis" using Cons.prems by simp
    from Cons.IH [OF this] False pos show ?thesis
      by (simp add: r nth_append le_div_geq le_mod_geq)
  qed
qed

lemma enumeration_tail:
  "\<exists>pre. channel_enumeration = pre @ rings 3 [16..16] full_phi @ rings 3 [27..28] half_phi
     \<and> length pre = 5040"
  unfolding channel_enumeration_def central_etas
  by (intro exI [of _ "rings 1 [-29..-21] half_phi
     @ rings 1 ([-20..-1] @ [1..20]) full_phi
     @ rings 1 [21..29] half_phi
     @ rings 2 [-29..-21] half_phi
     @ rings 2 [-20..-18] full_phi
     @ rings 2 [-16..-15] full_phi
     @ rings 2 [15..16] full_phi
     @ rings 2 [18..20] full_phi
     @ rings 2 [21..29] half_phi
     @ rings 3 [-28..-27] half_phi
     @ rings 3 [-16..-16] full_phi"])
     (simp add: length_rings length_half_phi length_full_phi del: upto_rec_numeral)

lemma enumeration_depth3_ring16:
  assumes "1 \<le> p" and "p \<le> 72"
  shows "channel_enumeration ! (5039 + p) = HBHEChannelId 3 16 p"
proof -
  from enumeration_tail obtain pre where
    e: "channel_enumeration = pre @ rings 3 [16..16] full_phi @ rings 3 [27..28] half_phi"
    and l: "length pre = 5040" by blast
  have k: "5039 + p = 5040 + (p - 1)" "p - 1 < 72" using assms by simp_all
  have "channel_enumeration ! (5039 + p) = rings 3 [16..16] full_phi ! (p - 1)"
    unfolding k(1) e using k(2) l
    by (simp add: nth_append length_rings length_full_phi del: upto_rec_numeral)
  also have "\<dots> = HBHEChannelId 3 16 (full_phi ! (p - 1))"
    using k(2) by (simp add: nth_rings length_full_phi)
  also have "full_phi ! (p - 1) = p" using assms k(2) by (simp add: full_phi_def)
  finally show ?thesis .
qed

lemma example_built: "built example_hw example_map"
  by (rule reachable_built) (rule example_reachable)

lemma example_inverse_ring16:
  "1 \<le> p \<Longrightarrow> p \<le> 72 \<Longrightarrow> inverse_' example_map (HBHEChannelId 3 16 p) = Some (5039 + p)"
  using built_inverse [OF example_built, of "HBHEChannelId 3 16 p" "5039 + p"]
  by (simp add: enumeration_depth3_ring16 ChannelCount_def)

lemma example_channel_hpd:
  assumes "i < ChannelCount"
  shows "hpd_lookup_' example_map ! i =
     (if channel_enumeration ! i = HBHEChannelId 3 16 1 then 1 else 0)"
proof -
  let ?c = "channel_enumeration ! i"
  have "?c \<in> set channel_enumeration"
    using assms by (simp add: length_channel_enumeration ChannelCount_def)
  then obtain sub where "getSubdetector (depth ?c) (ieta ?c) = Inr sub"
    using getSubdetector_enumerated by blast
  then have "hpd_of example_hw ?c = (if ?c = HBHEChannelId 3 16 1 then 1 else 0)"
    by (cases ?c) (auto simp: hpd_of_def channel_modules_def example_hw_def)
  then show ?thesis by (simp add: ctor_hpd_lookup [OF example_ctor assms])
qed

lemma example_hpd_5040: "hpd_lookup_' example_map ! 5040 = 1"
  using example_channel_hpd [of 5040] enumeration_depth3_ring16 [of 1]
  by (simp add: ChannelCount_def)

lemma example_hpd_other:
  "i < ChannelCount \<Longrightarrow> i \<noteq> 5040 \<Longrightarrow> hpd_lookup_' example_map ! i = 0"
  using example_channel_hpd [of i] enumeration_depth3_ring16 [of 1]
    nth_eq_iff_index_eq [OF distinct_channel_enumeration, of i 5040]
  by (auto simp: ChannelCount_def length_channel_enumeration)

lemma example_neighbors_5040: "neighbors_of example_map 5040 = [5041, 5111]"
proof -
  have l: "lookup_' example_map ! 5040 = HBHEChannelId 3 16 1"
    using enumeration_depth3_ring16 [of 1] by (simp add: built_lookup [OF example_built])
  have none: "inverse_' example_map (HBHEChannelId 3 e p) = None" if "e = 15 \<or> e = 17" for e p
    using that by (auto simp: built_inverse_None [OF example_built] in_channel_enumeration)
  have i2: "inverse_' example_map (HBHEChannelId 3 16 2) = Some 5041"
    using example_inverse_ring16 [of 2] by simp
  have i72: "inverse_' example_map (HBHEChannelId 3 16 72) = Some 5111"
    using example_inverse_ring16 [of 72] by simp
  have h: "hpd_lookup_' example_map ! 5041 = 0" "hpd_lookup_' example_map ! 5111 = 0"
    by (simp_all add: example_hpd_other ChannelCount_def)
  show ?thesis
    by (simp add: neighbors_of_def l neighbor_ids_eq shifted_eta_def wrapped_phi_def
        other_module_def none i2 i72 h example_hpd_5040)
qed

lemma built_getHPD:
  "built hw m \<Longrightarrow> j < ChannelCount \<Longrightarrow> getHPD m j = Inr (hpd_lookup_' m ! j)"
  by (simp add: getHPD_def)

lemma mem_neighbor_ids:
  assumes "1 \<le> phi0" and "phi0 \<le> 72"
  shows "c \<in> set (neighbor_ids dep eta0 phi0) \<longleftrightarrow>
     depth c = dep
     \<and> (\<exists>es \<in> {-1, 0, 1}. \<exists>ps \<in> {-1, 0, 1}. (es \<noteq> 0 \<or> ps \<noteq> 0)
          \<and> ieta c = shifted_eta eta0 es
          \<and> int (iphi c) = wrapped_phi (phi0 + ps))"
proof -
  have w: "int p = wrapped_phi (phi0 + ps) \<longleftrightarrow> p = nat (wrapped_phi (phi0 + ps))"
    if "ps \<in> {-1, 0, 1}" for p ps
    using that assms by (auto simp: wrapped_phi_def)
  obtain d e p where c: "c = HBHEChannelId d e p" by (cases c)
  show ?thesis
    unfolding c neighbor_ids_eq
    by (simp add: w) blast
qed


lemma filter_eq_upt: "k < n \<Longrightarrow> filter (\<lambda>i. i = k) [0..<n] = [k]"
proof (induction n)
  case 0
  then show ?case by simp
next
  case (Suc n)
  show ?case
  proof (cases "k < n")
    case True
    with Suc show ?thesis by simp
  next
    case False
    with Suc.prems have k: "k = n" by simp
    have "filter (\<lambda>i. i = n) [0..<n] = []" by (simp add: filter_empty_conv)
    then show ?thesis by (simp add: k)
  qed
qed

lemma example_module_1: "hpd_channel_lookup_' example_map ! 1 = [5040]"
proof -
  have "hpd_channel_lookup_' example_map ! 1
        = filter (\<lambda>i. hpd_lookup_' example_map ! i = 1) [0..<ChannelCount]"
    by (rule built_hpd_channel_lookup [OF example_built]) (simp add: example_hw_def)
  also have "\<dots> = filter (\<lambda>i. i = 5040) [0..<ChannelCount]"
  proof (rule filter_cong [OF refl])
    fix i assume "i \<in> set [0..<ChannelCount]"
    then have "i < ChannelCount" by simp
    then show "(hpd_lookup_' example_map ! i = 1) = (i = 5040)"
      by (cases "i = 5040") (simp_all add: example_hpd_5040 example_hpd_other)
  qed
  also have "\<dots> = [5040]" by (rule filter_eq_upt) (simp add: ChannelCount_def)
  finally show ?thesis .
qed

lemma example_hpd_neighbors_1: "hpd_neighbors_of example_map 1 = [5041, 5111]"
proof -
  have "hpd_neighbors_of example_map 1 = sorted_list_of_set (set [5041, 5111::nat])"
    by (simp add: hpd_neighbors_of_def example_module_1 [unfolded One_nat_def]
        example_neighbors_5040)
  also have "\<dots> = [5041, 5111]"
    by (simp add: sorted_list_of_set_sort_remdups)
  finally show ?thesis .
qed


lemma set_hpd_neighbors_of:
  "set (hpd_neighbors_of m hpd) =
     (\<Union>chan \<in> set (hpd_channel_lookup_' m ! hpd). set (neighbors_of m chan))"
  by (simp add: hpd_neighbors_of_def)


section \<open>Loading the geometry\<close>

lemma for_each_append_list:
  "for_each body s (xs @ ys) =
     (case for_each body s xs of Inl e \<Rightarrow> Inl e | Inr s' \<Rightarrow> for_each body s' ys)"
  by (induction xs arbitrary: s) (auto split: sum.splits)

lemma load_row_eq:
  "load_row ops chmap dirs t =
     (case row_index chmap t of
        Inl e \<Rightarrow> Inl e
      | Inr idx \<Rightarrow> if idx \<ge> length dirs then Inl IndexOutOfRange
                   else Inr (dirs[idx := Unit ops (row_vector t)]))"
  by (cases t) (auto simp: load_row_def row_index_def row_vector_def split: sum.splits)

lemma load_rows_result:
  "for_each (load_row ops chmap) dirs rows = Inr dirs' \<Longrightarrow>
   length dirs' = length dirs
   \<and> (\<forall>i < length dirs. dirs' ! i =
         (if filter (\<lambda>t. row_index chmap t = Inr i) rows = [] then dirs ! i
          else Unit ops (row_vector (last (filter (\<lambda>t. row_index chmap t = Inr i) rows)))))"
proof (induction rows arbitrary: dirs dirs' rule: rev_induct)
  case Nil
  then show ?case by simp
next
  case (snoc t rows)
  from snoc.prems obtain d1 where r: "for_each (load_row ops chmap) dirs rows = Inr d1"
    and l: "load_row ops chmap d1 t = Inr dirs'"
    by (auto simp: for_each_append_list split: sum.splits)
  from l obtain idx where idx: "row_index chmap t = Inr idx" "idx < length d1"
    "dirs' = d1[idx := Unit ops (row_vector t)]"
    by (auto simp: load_row_eq split: sum.splits if_splits)
  note ih = snoc.IH [OF r]
  show ?case
  proof (intro conjI allI impI)
    show "length dirs' = length dirs" using ih idx by simp
  next
    fix i assume i: "i < length dirs"
    show "dirs' ! i =
         (if filter (\<lambda>t. row_index chmap t = Inr i) (rows @ [t]) = [] then dirs ! i
          else Unit ops (row_vector (last (filter (\<lambda>t. row_index chmap t = Inr i) (rows @ [t])))))"
    proof (cases "idx = i")
      case True
      then show ?thesis using idx ih i by simp
    next
      case False
      then show ?thesis using idx ih i by simp
    qed
  qed
qed

lemma load_rows_succeed:
  assumes "\<forall>t \<in> set rows. \<exists>i < length dirs. row_index chmap t = Inr i"
  shows "\<exists>dirs'. for_each (load_row ops chmap) dirs rows = Inr dirs'"
proof -
  have "\<exists>d'. for_each (load_row ops chmap) dirs rows = Inr d' \<and> length d' = length dirs"
    by (rule for_each_succeeds [where P = "\<lambda>d. length d = length dirs"])
       (use assms in \<open>auto simp: load_row_eq\<close>)
  then show ?thesis by blast
qed

lemma check_directions:
  assumes "\<forall>i \<in> set xs. i < ChannelCount"
  shows "for_each (check_direction ops chmap) dirs xs =
     (if \<exists>i \<in> set xs. dirs ! i = zero_vector ops then Inl MissingGeometryEntry else Inr dirs)"
  using assms
  by (induction xs) (auto simp: check_direction_def getChannelTriple_def Let_def)


lemma row_index_bound:
  "built hw chmap \<Longrightarrow> row_index chmap t = Inr i \<Longrightarrow> i < ChannelCount"
  by (cases t) (auto simp: row_index_def linearIndex_def built_inverse split: option.splits)

lemma load_both_result:
  assumes "loadData ops (Rows hb) chmap d0 = Inr d1" and "loadData ops (Rows he) chmap d1 = Inr d2"
  shows "length d2 = length d0
     \<and> (\<forall>i < length d0. d2 ! i =
         (if filter (\<lambda>t. row_index chmap t = Inr i) (hb @ he) = [] then d0 ! i
          else Unit ops (row_vector (last (filter (\<lambda>t. row_index chmap t = Inr i) (hb @ he))))))"
proof -
  have "for_each (load_row ops chmap) d0 (hb @ he) = Inr d2"
    using assms by (simp add: loadData_def for_each_append_list)
  then show ?thesis by (rule load_rows_result)
qed

lemma load_both_succeed:
  assumes "built hw chmap" and "\<forall>t \<in> set (hb @ he). \<exists>i. row_index chmap t = Inr i"
    and "length d0 = ChannelCount"
  shows "\<exists>d1 d2. loadData ops (Rows hb) chmap d0 = Inr d1
     \<and> loadData ops (Rows he) chmap d1 = Inr d2"
proof -
  have "\<forall>t \<in> set (hb @ he). \<exists>i < length d0. row_index chmap t = Inr i"
    using assms row_index_bound [OF assms(1)] by metis
  from load_rows_succeed [OF this, of ops]
  show ?thesis by (auto simp: loadData_def for_each_append_list split: sum.splits)
qed

lemma geometry_ctor_Inr:
  assumes "HBHEChannelGeometry_ctor hw ops hbFile heFile = Inr g"
  shows "\<exists>chmap hb he d1. HBHEChannelMap_ctor hw = Inr chmap \<and> hbFile = Rows hb \<and> heFile = Rows he
     \<and> loadData ops (Rows hb) chmap (replicate ChannelCount (zero_vector ops)) = Inr d1
     \<and> loadData ops (Rows he) chmap d1 = Inr (directions_' g)
     \<and> (\<forall>i < ChannelCount. directions_' g ! i \<noteq> zero_vector ops)"
proof -
  from assms obtain chmap d1 d2 d3 where c: "HBHEChannelMap_ctor hw = Inr chmap"
    and l1: "loadData ops hbFile chmap (replicate ChannelCount (zero_vector ops)) = Inr d1"
    and l2: "loadData ops heFile chmap d1 = Inr d2"
    and ch: "for_each (check_direction ops chmap) d2 [0..<ChannelCount] = Inr d3"
    and g: "g = \<lparr>directions_' = d3\<rparr>"
    by (auto simp: HBHEChannelGeometry_ctor_def split: sum.splits)
  from l1 obtain hb where hb: "hbFile = Rows hb"
    by (cases hbFile) (auto simp: loadData_def)
  from l2 obtain he where he: "heFile = Rows he"
    by (cases heFile) (auto simp: loadData_def)
  from ch have "d3 = d2 \<and> (\<forall>i < ChannelCount. d2 ! i \<noteq> zero_vector ops)"
    by (auto simp: check_directions split: if_splits)
  then show ?thesis using c l1 l2 hb he g by auto
qed


lemma geometry_ctor_succeeds:
  assumes "HBHEChannelMap_ctor hw = Inr chmap"
    and "\<forall>t \<in> set (hb @ he). \<exists>i. row_index chmap t = Inr i"
    and "\<forall>i < ChannelCount. filter (\<lambda>t. row_index chmap t = Inr i) (hb @ he) \<noteq> []
          \<and> Unit ops (row_vector (last (filter (\<lambda>t. row_index chmap t = Inr i) (hb @ he))))
              \<noteq> zero_vector ops"
  shows "\<exists>g. HBHEChannelGeometry_ctor hw ops (Rows hb) (Rows he) = Inr g"
proof -
  have b: "built hw chmap" using assms(1) by (auto simp: built_def)
  let ?d0 = "replicate ChannelCount (zero_vector ops)"
  from load_both_succeed [OF b assms(2), of ?d0 ops]
  obtain d1 d2 where l1: "loadData ops (Rows hb) chmap ?d0 = Inr d1"
    and l2: "loadData ops (Rows he) chmap d1 = Inr d2"
    by auto
  have "d2 ! i \<noteq> zero_vector ops" if "i < ChannelCount" for i
  proof -
    let ?f = "filter (\<lambda>t. row_index chmap t = Inr i) (hb @ he)"
    from assms(3) that have "?f \<noteq> []" "Unit ops (row_vector (last ?f)) \<noteq> zero_vector ops"
      by blast+
    moreover from load_both_result [OF l1 l2] that
    have "d2 ! i = (if ?f = [] then ?d0 ! i else Unit ops (row_vector (last ?f)))"
      by (simp del: filter_append)
    ultimately show ?thesis by (simp del: filter_append)
  qed
  then have "for_each (check_direction ops chmap) d2 [0..<ChannelCount] = Inr d2"
    by (simp add: check_directions)
  then show ?thesis
    using assms(1) l1 l2 by (simp add: HBHEChannelGeometry_ctor_def)
qed

lemma example_row_index:
  assumes "i < ChannelCount"
  shows "row_index example_map (example_rows ! i) = Inr i"
proof -
  let ?c = "channel_enumeration ! i"
  have len: "i < length channel_enumeration"
    using assms by (simp add: length_channel_enumeration ChannelCount_def)
  then have "?c \<in> set channel_enumeration" by simp
  from channel_mem_bounds [OF this]
  have bd: "depth ?c \<le> 3" "\<bar>ieta ?c\<bar> \<le> 29" "iphi ?c \<le> 72" by simp_all
  have "unat (word_of_nat (depth ?c) :: 32 word) = depth ?c"
    "unat (word_of_nat (iphi ?c) :: 32 word) = iphi ?c"
    using bd by (simp_all add: unat_of_nat)
  moreover have "sint (word_of_int (ieta ?c) :: 32 word) = ieta ?c"
    using bd by (simp add: sint_sbintrunc' signed_take_bit_int_eq_self)
  moreover have "inverse_' example_map ?c = Some i"
    using assms by (simp add: built_inverse [OF example_built])
  ultimately show ?thesis
    using len by (simp add: example_rows_def row_index_def linearIndex_def)
qed

lemma example_rows_vector: "t \<in> set example_rows \<Longrightarrow> row_vector t = (0, 0, 1)"
  by (auto simp: example_rows_def row_vector_def)

lemma example_rows_complete:
  assumes "i < ChannelCount"
  shows "filter (\<lambda>t. row_index example_map t = Inr i) example_rows \<noteq> []
     \<and> row_vector (last (filter (\<lambda>t. row_index example_map t = Inr i) example_rows)) = (0, 0, 1)"
proof -
  let ?f = "filter (\<lambda>t. row_index example_map t = Inr i) example_rows"
  have "i < length example_rows"
    using assms by (simp add: example_rows_def length_channel_enumeration ChannelCount_def)
  then have "example_rows ! i \<in> set ?f"
    using example_row_index [OF assms] by simp
  then have ne: "?f \<noteq> []" by (metis empty_iff empty_set)
  then have "last ?f \<in> set ?f" by (rule last_in_set)
  then have "last ?f \<in> set example_rows" by simp
  with ne show ?thesis by (simp add: example_rows_vector)
qed

lemma example_rows_valid:
  "\<forall>t \<in> set example_rows. \<exists>i. row_index example_map t = Inr i"
proof
  fix t assume "t \<in> set example_rows"
  then obtain i where "i < length example_rows" "t = example_rows ! i"
    by (auto simp: in_set_conv_nth)
  then show "\<exists>i. row_index example_map t = Inr i"
    using example_row_index [of i]
    by (auto simp: example_rows_def length_channel_enumeration ChannelCount_def)
qed

lemma example_Unit: "Unit example_ops (0, 0, 1) = (0, 0, 1)"
  by (simp add: example_ops_def)


lemma row_index_cases:
  assumes "built hw chmap"
  shows "row_index chmap t = Inl InvalidChannel \<or> (\<exists>i < ChannelCount. row_index chmap t = Inr i)"
proof (cases "row_index chmap t")
  case (Inl e)
  then show ?thesis
    by (cases t) (auto simp: row_index_def linearIndex_def split: option.splits)
next
  case (Inr i)
  then show ?thesis using row_index_bound [OF assms Inr] by simp
qed

lemma load_rows_invalid:
  assumes "built hw chmap" and "length dirs = ChannelCount"
    and "\<exists>t \<in> set rows. \<forall>i. row_index chmap t \<noteq> Inr i"
  shows "for_each (load_row ops chmap) dirs rows = Inl InvalidChannel"
  using assms(2,3)
proof (induction rows arbitrary: dirs)
  case Nil
  then show ?case by simp
next
  case (Cons t rows)
  from row_index_cases [OF assms(1), of t] show ?case
  proof
    assume "row_index chmap t = Inl InvalidChannel"
    then show ?thesis by (simp add: load_row_eq)
  next
    assume "\<exists>i < ChannelCount. row_index chmap t = Inr i"
    then obtain i where i: "i < ChannelCount" "row_index chmap t = Inr i" by blast
    then have step: "load_row ops chmap dirs t = Inr (dirs[i := Unit ops (row_vector t)])"
      using Cons.prems(1) by (simp add: load_row_eq)
    have "\<exists>t \<in> set rows. \<forall>i. row_index chmap t \<noteq> Inr i"
      using Cons.prems(2) i(2) by auto
    then have "for_each (load_row ops chmap) (dirs[i := Unit ops (row_vector t)]) rows
        = Inl InvalidChannel"
      by (intro Cons.IH) (use Cons.prems(1) in simp_all)
    then show ?thesis using step by simp
  qed
qed

lemma geometry_ctor_invalid_row:
  assumes "HBHEChannelMap_ctor hw = Inr chmap"
    and "\<exists>t \<in> set (hb @ he). \<forall>i. row_index chmap t \<noteq> Inr i"
  shows "HBHEChannelGeometry_ctor hw ops (Rows hb) (Rows he) = Inl InvalidChannel"
proof -
  have b: "built hw chmap" using assms(1) by (auto simp: built_def)
  let ?d0 = "replicate ChannelCount (zero_vector ops)"
  have "for_each (load_row ops chmap) ?d0 (hb @ he) = Inl InvalidChannel"
    by (rule load_rows_invalid [OF b _ assms(2)]) simp
  then have "(case loadData ops (Rows hb) chmap ?d0 of
                Inl e \<Rightarrow> Inl e | Inr d1 \<Rightarrow> loadData ops (Rows he) chmap d1) = Inl InvalidChannel"
    by (auto simp: loadData_def for_each_append_list split: sum.splits)
  then show ?thesis
    using assms(1)
    by (auto simp: HBHEChannelGeometry_ctor_def split: sum.splits)
qed

lemma geometry_ctor_directions:
  assumes "HBHEChannelGeometry_ctor hw ops hbFile heFile = Inr g"
  shows "\<exists>chmap hb he. HBHEChannelMap_ctor hw = Inr chmap \<and> hbFile = Rows hb \<and> heFile = Rows he
         \<and> length (directions_' g) = ChannelCount
         \<and> (\<forall>i < ChannelCount.
               directions_' g ! i \<noteq> zero_vector ops
             \<and> filter (\<lambda>t. row_index chmap t = Inr i) (hb @ he) \<noteq> []
             \<and> directions_' g ! i =
                 Unit ops (row_vector (last (filter (\<lambda>t. row_index chmap t = Inr i) (hb @ he)))))"
proof -
  from geometry_ctor_Inr [OF assms]
  obtain chmap hb he d1 where c: "HBHEChannelMap_ctor hw = Inr chmap"
    and f: "hbFile = Rows hb" "heFile = Rows he"
    and l1: "loadData ops (Rows hb) chmap (replicate ChannelCount (zero_vector ops)) = Inr d1"
    and l2: "loadData ops (Rows he) chmap d1 = Inr (directions_' g)"
    and nz: "\<forall>i < ChannelCount. directions_' g ! i \<noteq> zero_vector ops"
    by blast
  from load_both_result [OF l1 l2]
  have len: "length (directions_' g) = ChannelCount"
    and v: "\<forall>i < ChannelCount. directions_' g ! i =
         (if filter (\<lambda>t. row_index chmap t = Inr i) (hb @ he) = [] then zero_vector ops
          else Unit ops (row_vector (last (filter (\<lambda>t. row_index chmap t = Inr i) (hb @ he)))))"
    by simp_all
  have "\<forall>i < ChannelCount.
               directions_' g ! i \<noteq> zero_vector ops
             \<and> filter (\<lambda>t. row_index chmap t = Inr i) (hb @ he) \<noteq> []
             \<and> directions_' g ! i =
                 Unit ops (row_vector (last (filter (\<lambda>t. row_index chmap t = Inr i) (hb @ he))))"
    using nz v by metis
  with c f len show ?thesis by blast
qed

lemma enumeration_first: "channel_enumeration ! 0 = HBHEChannelId 1 (-29) 1"
proof -
  have "channel_enumeration ! 0 = rings 1 [-29..-21] half_phi ! 0"
    unfolding channel_enumeration_def
    by (simp add: nth_append length_rings length_half_phi del: upto_rec_numeral)
  also have "\<dots> = HBHEChannelId 1 ([-29..-21] ! 0) (half_phi ! 0)"
    by (simp add: nth_rings length_half_phi del: upto_rec_numeral)
  also have "[-29..-21] ! 0 = (-29::int)" by (simp add: upto.simps)
  also have "half_phi ! 0 = 1" by (simp add: half_phi_eq)
  finally show ?thesis .
qed


lemma duplicate_row_index: "row_index example_map duplicate_row = Inr 0"
proof -
  have "inverse_' example_map (HBHEChannelId 1 (-29) 1) = Some 0"
    by (simp add: built_inverse [OF example_built] enumeration_first ChannelCount_def)
  then show ?thesis
    by (simp add: duplicate_row_def row_index_def linearIndex_def)
qed

lemma duplicate_last:
  assumes "i < ChannelCount"
  shows "filter (\<lambda>t. row_index example_map t = Inr i) (example_rows @ [duplicate_row]) \<noteq> []
     \<and> row_vector (last (filter (\<lambda>t. row_index example_map t = Inr i)
                            (example_rows @ [duplicate_row])))
         = (if i = 0 then (0, 1, 0) else (0, 0, 1))"
proof (cases "i = 0")
  case True
  then show ?thesis by (simp add: duplicate_row_index) (simp add: duplicate_row_def row_vector_def)
next
  case False
  then have "filter (\<lambda>t. row_index example_map t = Inr i) (example_rows @ [duplicate_row])
      = filter (\<lambda>t. row_index example_map t = Inr i) example_rows"
    by (simp add: duplicate_row_index)
  then show ?thesis using example_rows_complete [OF assms] False by simp
qed


section \<open>Claims about the lookups\<close>

text \<open>
  Claim C1. For every (depth, ieta, iphi) triple of the enumerated channel set,
  \<open>linearIndex\<close> returns an index, and \<open>getChannelTriple\<close> at that index returns the
  triple again. This holds for a constructed map, whatever queries were made on it.
\<close>

theorem linearIndex_roundtrip:
  assumes "reachable hw m" and "HBHEChannelId d eta phi \<in> set (lookup_' m)"
  shows "\<exists>i. linearIndex m d eta phi = Inr i \<and> getChannelTriple m i = Inr (d, eta, phi)"
proof -
  from assms obtain i where i: "i < ChannelCount" "channel_enumeration ! i = HBHEChannelId d eta phi"
    by (auto simp: reachable_lookup in_set_conv_nth length_channel_enumeration ChannelCount_def)
  then have "inverse_' m (HBHEChannelId d eta phi) = Some i"
    using reachable_inverse [OF assms(1)] by simp
  then have "linearIndex m d eta phi = Inr i" by (simp add: linearIndex_def)
  moreover have "getChannelTriple m i = Inr (d, eta, phi)"
    using i by (simp add: getChannelTriple_def reachable_lookup [OF assms(1)])
  ultimately show ?thesis by blast
qed

theorem linearIndex_roundtrip_witness:
  "\<exists>i. linearIndex example_map 3 16 1 = Inr i \<and> getChannelTriple example_map i = Inr (3, 16, 1)"
proof (rule linearIndex_roundtrip [OF example_reachable])
  show "HBHEChannelId 3 16 1 \<in> set (lookup_' example_map)"
    by (simp add: reachable_lookup [OF example_reachable] in_channel_enumeration)
qed

text \<open>
  Claim C4, as stated, gives a subdetector for any (depth, ieta). The function asserts
  the range of its arguments first: depth 3 at ieta 29 fails the assertion
  \<open>depth <= 2\<close> made for \<open>abseta == 29\<close>, where the claim says endcap.
\<close>

theorem getSubdetector_out_of_range: "getSubdetector 3 29 = Inl AssertionFailure"
  by (simp add: getSubdetector_def)

text \<open>
  Claim C4, amended. For arguments in the asserted range (depth 1 to 3, \<open>|ieta| \<le> 29\<close>,
  and depth at most 2 when \<open>|ieta| = 29\<close>) the subdetector is the barrel for
  \<open>|ieta| \<le> 15\<close>, the barrel for \<open>|ieta| = 16\<close> at depth 1 or 2, the endcap for
  \<open>|ieta| = 16\<close> at depth 3, and the endcap for \<open>|ieta| \<ge> 17\<close>; outside that range the call
  fails an assertion. In particular (depth 2, ieta 16) is barrel and (depth 3, ieta 16)
  is endcap.
\<close>

theorem getSubdetector_classification:
  "(0 < dep \<and> dep < 4 \<and> \<bar>eta\<bar> \<le> 29 \<and> (\<bar>eta\<bar> = 29 \<longrightarrow> dep \<le> 2) \<longrightarrow>
      (\<bar>eta\<bar> \<le> 15 \<longrightarrow> getSubdetector dep eta = Inr HcalBarrel)
    \<and> (\<bar>eta\<bar> = 16 \<and> dep \<le> 2 \<longrightarrow> getSubdetector dep eta = Inr HcalBarrel)
    \<and> (\<bar>eta\<bar> = 16 \<and> dep = 3 \<longrightarrow> getSubdetector dep eta = Inr HcalEndcap)
    \<and> (\<bar>eta\<bar> \<ge> 17 \<longrightarrow> getSubdetector dep eta = Inr HcalEndcap))
   \<and> (\<not> (0 < dep \<and> dep < 4 \<and> \<bar>eta\<bar> \<le> 29 \<and> (\<bar>eta\<bar> = 29 \<longrightarrow> dep \<le> 2)) \<longrightarrow>
        getSubdetector dep eta = Inl AssertionFailure)
   \<and> getSubdetector 2 16 = Inr HcalBarrel \<and> getSubdetector 3 16 = Inr HcalEndcap"
  by (auto simp: getSubdetector_def Let_def)

theorem getSubdetector_classification_witness:
  "getSubdetector 1 (-15) = Inr HcalBarrel \<and> getSubdetector 2 (-16) = Inr HcalBarrel
   \<and> getSubdetector 3 (-16) = Inr HcalEndcap \<and> getSubdetector 1 17 = Inr HcalEndcap
   \<and> getSubdetector 4 10 = Inl AssertionFailure"
  using getSubdetector_classification [of 1 "-15"] getSubdetector_classification [of 2 "-16"]
    getSubdetector_classification [of 3 "-16"] getSubdetector_classification [of 1 17]
    getSubdetector_classification [of 4 10]
  by simp

text \<open>
  Claim C5. The enumeration is a constant: it has no input, every construction yields
  this same sequence whatever the hardware mapping is, its length is \<open>ChannelCount\<close>,
  which is 5184, and so the assertion \<open>l == ChannelCount\<close> of the constructor holds.
\<close>

theorem enumeration_fixed:
  "length channel_enumeration = ChannelCount \<and> ChannelCount = 5184
   \<and> (\<forall>hw m. reachable hw m \<longrightarrow> lookup_' m = channel_enumeration)
   \<and> (\<forall>hw hw' m m'. HBHEChannelMap_ctor hw = Inr m \<and> HBHEChannelMap_ctor hw' = Inr m'
        \<longrightarrow> lookup_' m = lookup_' m')
   \<and> (\<forall>hw. HBHEChannelMap_ctor hw = for_each (ctor_step hw) (initial_map hw) [0..<ChannelCount])"
  by (auto simp: length_channel_enumeration ChannelCount_def reachable_lookup ctor_lookup
      HBHEChannelMap_ctor_def)

theorem enumeration_fixed_witness:
  "lookup_' example_map = channel_enumeration \<and> length (lookup_' example_map) = 5184"
  using enumeration_fixed example_reachable by (auto simp: ChannelCount_def)

text \<open>
  Claim C6. \<open>linearIndex\<close> fails with \<open>InvalidChannel\<close> on a triple outside the
  enumerated set and returns the position of a triple in it; \<open>getChannelTriple\<close> fails
  with \<open>IndexOutOfRange\<close> on an index at or above the channel count and returns the
  triple at the index otherwise.
\<close>

theorem lookup_failures:
  assumes "reachable hw m"
  shows "(HBHEChannelId d eta phi \<notin> set (lookup_' m) \<longrightarrow> linearIndex m d eta phi = Inl InvalidChannel)
       \<and> (\<forall>i < length (lookup_' m). lookup_' m ! i = HBHEChannelId d eta phi \<longrightarrow>
            linearIndex m d eta phi = Inr i)
       \<and> (index \<ge> ChannelCount \<longrightarrow> getChannelTriple m index = Inl IndexOutOfRange)
       \<and> (index < ChannelCount \<longrightarrow>
            getChannelTriple m index =
              Inr (depth (lookup_' m ! index), ieta (lookup_' m ! index), iphi (lookup_' m ! index)))"
proof -
  have L: "lookup_' m = channel_enumeration" by (rule reachable_lookup [OF assms])
  have "linearIndex m d eta phi = Inl InvalidChannel" if "HBHEChannelId d eta phi \<notin> set (lookup_' m)"
    using that reachable_inverse_None [OF assms, of "HBHEChannelId d eta phi"]
    by (simp add: L linearIndex_def)
  moreover have "linearIndex m d eta phi = Inr i"
    if "i < length (lookup_' m)" "lookup_' m ! i = HBHEChannelId d eta phi" for i
  proof -
    have "inverse_' m (HBHEChannelId d eta phi) = Some i"
      using that reachable_inverse [OF assms, of "HBHEChannelId d eta phi" i]
      by (simp add: L length_channel_enumeration ChannelCount_def)
    then show ?thesis by (simp add: linearIndex_def)
  qed
  ultimately show ?thesis by (simp add: getChannelTriple_def Let_def)
qed

theorem lookup_failures_witness:
  "linearIndex example_map 3 17 1 = Inl InvalidChannel
   \<and> getChannelTriple example_map 5184 = Inl IndexOutOfRange
   \<and> (\<exists>t. getChannelTriple example_map 5183 = Inr t)"
  using lookup_failures [OF example_reachable, of 3 17 1 5184]
    lookup_failures [OF example_reachable, of 3 17 1 5183]
  by (simp add: reachable_lookup [OF example_reachable] in_channel_enumeration ChannelCount_def)

section \<open>Claim about the energy of a pulse\<close>

lemma energy_loop_foldl:
  "energy_loop q ped g i hi e = foldl (\<lambda>e t. e + (q t - ped t) * g t) e [i..<hi]"
proof (induction q ped g i hi e rule: energy_loop.induct)
  case (1 q ped g i hi e)
  show ?case
  proof (cases "i < hi")
    case True
    then show ?thesis
      using "1" by (subst energy_loop.simps) (simp add: upt_conv_Cons)
  next
    case False
    then show ?thesis by (subst energy_loop.simps) simp
  qed
qed

lemma foldl_plus_sum:
  fixes f :: "nat \<Rightarrow> 'a::ring"
  shows "foldl (\<lambda>e t. e + f t) e [i..<hi] = e + (\<Sum>t = i..<hi. f t)"
proof (induction hi)
  case 0
  then show ?case by simp
next
  case (Suc hi)
  then show ?case by (cases "i \<le> hi") (simp_all add: add.assoc)
qed

text \<open>
  Claim C8. A window with \<open>window_start < window_end \<le> N_TIME_SLICES\<close> is accepted, and
  any other window fails with \<open>InvalidWindow\<close>. With an accepted window, \<open>energy\<close> of
  every pulse of the event adds \<open>(Charge[t] - Pedestal[t]) * Gain[t]\<close> to 0 for the time
  slices \<open>t\<close> of the window in increasing order, start included and end excluded; this
  holds for any arithmetic, with no law assumed. Where the sample values form a ring,
  the result is the sum over the window.
\<close>

theorem energy_window:
  fixes h :: "'a::{zero,plus,minus,times} NoiseTreeHelper" and r :: "'b::ring NoiseTreeHelper"
  shows "(setEMinMaxTS ws we h = Inl InvalidWindow \<longleftrightarrow> \<not> (ws < we \<and> we \<le> N_TIME_SLICES))
       \<and> (ws < we \<and> we \<le> N_TIME_SLICES \<longrightarrow>
            (\<exists>h'. setEMinMaxTS ws we h = Inr h'
               \<and> (\<forall>idx. idx < nat (PulseCount h mod 2 ^ 32) \<longrightarrow>
                    energy h' idx =
                      Inr (foldl (\<lambda>e t. e + (Charge h idx t - Pedestal h idx t) * Gain h idx t)
                             0 [ws..<we]))))
       \<and> (ws < we \<and> we \<le> N_TIME_SLICES \<longrightarrow>
            (\<exists>r'. setEMinMaxTS ws we r = Inr r'
               \<and> (\<forall>idx. idx < nat (PulseCount r mod 2 ^ 32) \<longrightarrow>
                    energy r' idx =
                      Inr (\<Sum>t = ws..<we. (Charge r idx t - Pedestal r idx t) * Gain r idx t))))"
proof (intro conjI)
  show "setEMinMaxTS ws we h = Inl InvalidWindow \<longleftrightarrow> \<not> (ws < we \<and> we \<le> N_TIME_SLICES)"
    by (auto simp: setEMinMaxTS_def)
  show "ws < we \<and> we \<le> N_TIME_SLICES \<longrightarrow>
            (\<exists>h'. setEMinMaxTS ws we h = Inr h'
               \<and> (\<forall>idx. idx < nat (PulseCount h mod 2 ^ 32) \<longrightarrow>
                    energy h' idx =
                      Inr (foldl (\<lambda>e t. e + (Charge h idx t - Pedestal h idx t) * Gain h idx t)
                             0 [ws..<we])))"
    by (auto simp: setEMinMaxTS_def energy_def energy_loop_foldl)
  show "ws < we \<and> we \<le> N_TIME_SLICES \<longrightarrow>
            (\<exists>r'. setEMinMaxTS ws we r = Inr r'
               \<and> (\<forall>idx. idx < nat (PulseCount r mod 2 ^ 32) \<longrightarrow>
                    energy r' idx =
                      Inr (\<Sum>t = ws..<we. (Charge r idx t - Pedestal r idx t) * Gain r idx t)))"
    by (auto simp: setEMinMaxTS_def energy_def energy_loop_foldl foldl_plus_sum)
qed

theorem energy_window_witness:
  "setEMinMaxTS 8 3 example_helper = Inl InvalidWindow
   \<and> setEMinMaxTS 3 11 example_helper = Inl InvalidWindow
   \<and> map_sum id (\<lambda>h'. energy h' 0) (setEMinMaxTS 4 6 example_helper) = Inr (Inr 14)"
proof -
  have "{4..<6::nat} = {4, 5}" by auto
  then have s: "sum f {4..<6::nat} = f 4 + f 5" for f :: "nat \<Rightarrow> int" by simp
  show ?thesis
    using energy_window [where ws = 8 and we = 3 and h = example_helper and r = example_helper]
      energy_window [where ws = 3 and we = 11 and h = example_helper and r = example_helper]
      energy_window [where ws = 4 and we = 6 and h = example_helper and r = example_helper]
    by (auto simp: N_TIME_SLICES_def example_helper_def s)
qed

section \<open>Claim about the pruning\<close>

lemma discard_lowest_split:
  "\<exists>n \<le> length cs.
     discard_lowest budget running cs =
       map (\<lambda>c. (snd c, False)) (take n cs) @ map (\<lambda>c. (snd c, True)) (drop n cs)
   \<and> (\<forall>k \<le> n. running + sum_list (map fst (take k cs)) \<le> budget \<or> k = 0)
   \<and> (n < length cs \<longrightarrow> running + sum_list (map fst (take (Suc n) cs)) > budget)"
proof (induction cs arbitrary: running)
  case Nil
  then show ?case by simp
next
  case (Cons c cs)
  obtain e ch where c: "c = (e, ch)" by (cases c)
  show ?case
  proof (cases "running + e \<le> budget")
    case True
    from Cons.IH [of "running + e"] obtain n where n: "n \<le> length cs"
      "discard_lowest budget (running + e) cs =
         map (\<lambda>c. (snd c, False)) (take n cs) @ map (\<lambda>c. (snd c, True)) (drop n cs)"
      "\<forall>k \<le> n. running + e + sum_list (map fst (take k cs)) \<le> budget \<or> k = 0"
      "n < length cs \<longrightarrow> running + e + sum_list (map fst (take (Suc n) cs)) > budget"
      by blast
    have "\<forall>k \<le> Suc n. running + sum_list (map fst (take k (c # cs))) \<le> budget \<or> k = 0"
    proof (intro allI impI)
      fix k assume "k \<le> Suc n"
      show "running + sum_list (map fst (take k (c # cs))) \<le> budget \<or> k = 0"
      proof (cases k)
        case 0
        then show ?thesis by simp
      next
        case (Suc k')
        then show ?thesis
          using n(3) \<open>k \<le> Suc n\<close> True c by (cases k') (auto simp: add.assoc)
      qed
    qed
    then show ?thesis
      using n True c by (intro exI [of _ "Suc n"]) (simp add: add.assoc)
  next
    case False
    then show ?thesis using c by (intro exI [of _ 0]) simp
  qed
qed

text \<open>
  Claim C7, as stated, has no exception. The spec has one: a jet of total energy zero
  discards all its channels. For total energy 0 and one channel of energy 1, the
  pruner discards the channel, where the rule of the claim keeps it, since its
  inclusion exceeds the budget 0.
\<close>

theorem prune_jet_zero_energy:
  "prune_jet (2 / 100) 0 [(1, 10)] = [(10, False)]
   \<and> discard_lowest (2 / 100 * 0) 0 (sort_key fst [(1, 10)]) = [(10, True)]"
  by (simp add: prune_jet_def)

text \<open>
  Claim C7, amended. For a jet of non-zero total energy the result lists the channels by
  ascending energy, a discarded prefix followed by a kept suffix: every non-empty part
  of the prefix has an energy sum within \<open>f\<close> times the total energy, and the prefix
  extended by the first kept channel exceeds it. A jet of total energy zero discards
  all its channels. For total energy 100, \<open>f = 0.02\<close> and the energies 1, 2 and 97,
  exactly the channel of energy 1 is discarded.
\<close>

theorem prune_jet_budget:
  "(jet_total_energy \<noteq> 0 \<longrightarrow>
     (\<exists>n \<le> length chans.
        prune_jet f jet_total_energy chans =
          map (\<lambda>c. (snd c, False)) (take n (sort_key fst chans))
          @ map (\<lambda>c. (snd c, True)) (drop n (sort_key fst chans))
      \<and> (\<forall>k \<le> n. 0 < k \<longrightarrow>
            sum_list (map fst (take k (sort_key fst chans))) \<le> f * jet_total_energy)
      \<and> (n < length chans \<longrightarrow>
            sum_list (map fst (take (Suc n) (sort_key fst chans))) > f * jet_total_energy)))
   \<and> (jet_total_energy = 0 \<longrightarrow>
        prune_jet f jet_total_energy chans = map (\<lambda>c. (snd c, False)) (sort_key fst chans))
   \<and> prune_jet (2 / 100) 100 [(97, 12), (1, 10), (2, 11)] = [(10, False), (11, True), (12, True)]"
proof -
  have "prune_jet (2 / 100) 100 [(97, 12), (1, 10), (2, 11)] = [(10, False), (11, True), (12, True)]"
    by (simp add: prune_jet_def)
  moreover have "jet_total_energy \<noteq> 0 \<longrightarrow>
     (\<exists>n \<le> length chans.
        prune_jet f jet_total_energy chans =
          map (\<lambda>c. (snd c, False)) (take n (sort_key fst chans))
          @ map (\<lambda>c. (snd c, True)) (drop n (sort_key fst chans))
      \<and> (\<forall>k \<le> n. 0 < k \<longrightarrow>
            sum_list (map fst (take k (sort_key fst chans))) \<le> f * jet_total_energy)
      \<and> (n < length chans \<longrightarrow>
            sum_list (map fst (take (Suc n) (sort_key fst chans))) > f * jet_total_energy))"
    using discard_lowest_split [of "sort_key fst chans" "f * jet_total_energy" 0]
    by (auto simp: prune_jet_def)
  moreover have "jet_total_energy = 0 \<longrightarrow>
        prune_jet f jet_total_energy chans = map (\<lambda>c. (snd c, False)) (sort_key fst chans)"
    by (simp add: prune_jet_def)
  ultimately show ?thesis by blast
qed

theorem prune_jet_budget_witness:
  "(50::real) \<noteq> 0
   \<and> prune_jet (1 / 10) 50 [(3, 1), (1, 2), (4, 3)] = [(2, False), (1, False), (3, True)]
   \<and> prune_jet (1 / 10) 0 [(3, 1), (1, 2)] = [(2, False), (1, False)]"
  using prune_jet_budget [of 50 "[(3, 1), (1, 2), (4, 3)]" "1 / 10"]
    prune_jet_budget [of 0 "[(3, 1), (1, 2)]" "1 / 10"]
  by (simp add: prune_jet_def)

section \<open>Claims about the neighbours of a channel\<close>

text \<open>
  Claim C10. For every valid channel index of a constructed map, the list that
  \<open>calculateNeighborList\<close> computes has at most 8 entries, is strictly increasing (so
  it has no duplicates), holds only indices below the channel count, and holds neither
  the channel itself nor any channel of the module of the channel.
\<close>

theorem neighbor_list_invariants:
  assumes "reachable hw m" and "index < ChannelCount"
  shows "\<exists>ns. calculateNeighborList m index = Inr ns \<and> length ns \<le> 8 \<and> sorted_wrt (<) ns
     \<and> (\<forall>j \<in> set ns. j < ChannelCount \<and> j \<noteq> index \<and> getHPD m j \<noteq> getHPD m index)"
proof -
  have b: "built hw m" by (rule reachable_built [OF assms(1)])
  have "\<forall>j \<in> set (neighbors_of m index).
          j < ChannelCount \<and> j \<noteq> index \<and> getHPD m j \<noteq> getHPD m index"
    using assms(2) by (auto simp: set_neighbors_of [OF b] getHPD_def)
  moreover have "sorted_wrt (<) (neighbors_of m index)"
    by (simp add: strict_sorted_iff sorted_neighbors_of distinct_neighbors_of [OF b assms(2)])
  ultimately show ?thesis
    using calculateNeighborList_eq [OF b assms(2)] length_neighbors_of [of m index] by blast
qed

theorem neighbor_list_invariants_witness:
  "(5040::nat) < ChannelCount
   \<and> (\<exists>ns. calculateNeighborList example_map 5040 = Inr ns \<and> ns = [5041, 5111]
         \<and> length ns \<le> 8 \<and> sorted_wrt (<) ns
         \<and> (\<forall>j \<in> set ns. j < ChannelCount \<and> j \<noteq> 5040
               \<and> getHPD example_map j \<noteq> getHPD example_map 5040))"
proof -
  have i: "(5040::nat) < ChannelCount" by (simp add: ChannelCount_def)
  from neighbor_list_invariants [OF example_reachable i]
  show ?thesis
    using i calculateNeighborList_eq [OF example_built i] example_neighbors_5040 by auto
qed

text \<open>
  Claim C2. For every valid channel index, \<open>channelNeigborsFromOtherHPDs\<close> returns a
  sorted list without duplicates of exactly the channel indices that have the depth of
  the source channel, an ieta one of the three shifts -1, 0, 1 away (a shift landing on
  0 pushed one further), an iphi one of the three shifts away (bin 0 being bin 72 and
  bin 73 being bin 1), the shift (0, 0) left out, and a module other than that of the
  source channel. The call sets the cache flag, and a second call returns the same list
  and leaves the object as it is. In particular a channel at iphi 1 and a channel at
  iphi 72 of the same ieta and depth, on different modules, are in the list of each
  other.
\<close>

theorem channel_neighbors_spec:
  assumes "reachable hw m" and "index < ChannelCount"
  shows "\<exists>m' ns. channelNeigborsFromOtherHPDs m index = Inr (m', ns)
     \<and> sorted ns \<and> distinct ns
     \<and> set ns = {j. j < ChannelCount
          \<and> depth (lookup_' m ! j) = depth (lookup_' m ! index)
          \<and> (\<exists>es \<in> {-1, 0, 1}. \<exists>ps \<in> {-1, 0, 1}. (es \<noteq> 0 \<or> ps \<noteq> 0)
               \<and> ieta (lookup_' m ! j) = shifted_eta (ieta (lookup_' m ! index)) es
               \<and> int (iphi (lookup_' m ! j))
                   = wrapped_phi (int (iphi (lookup_' m ! index)) + ps))
          \<and> getHPD m j \<noteq> getHPD m index}
     \<and> neighborInfoFilled_' m' \<and> channelNeigborsFromOtherHPDs m' index = Inr (m', ns)
     \<and> (\<forall>j < ChannelCount.
           iphi (lookup_' m ! index) = 1 \<and> iphi (lookup_' m ! j) = 72
           \<and> ieta (lookup_' m ! j) = ieta (lookup_' m ! index)
           \<and> depth (lookup_' m ! j) = depth (lookup_' m ! index)
           \<and> getHPD m j \<noteq> getHPD m index
           \<longrightarrow> j \<in> set ns)
     \<and> (\<forall>j < ChannelCount.
           iphi (lookup_' m ! index) = 72 \<and> iphi (lookup_' m ! j) = 1
           \<and> ieta (lookup_' m ! j) = ieta (lookup_' m ! index)
           \<and> depth (lookup_' m ! j) = depth (lookup_' m ! index)
           \<and> getHPD m j \<noteq> getHPD m index
           \<longrightarrow> j \<in> set ns)"
proof -
  let ?c = "lookup_' m ! index"
  let ?ns = "neighbors_of m index"
  have b: "built hw m" by (rule reachable_built [OF assms(1)])
  have ok: "map_ok hw m" by (rule reachable_map_ok [OF assms(1)])
  have phi: "1 \<le> int (iphi ?c)" "int (iphi ?c) \<le> 72"
    using channel_mem_bounds [OF built_nth_mem [OF b assms(2)]] by auto
  obtain m' where q: "channelNeigborsFromOtherHPDs m index = Inr (m', ?ns)"
    using channel_query_eq [OF ok assms(2)] by blast
  note ok' = channel_query_ok [OF ok q]
  have q': "channelNeigborsFromOtherHPDs m' index = Inr (m', ?ns)"
    using channel_query_eq [of hw m' index] ok' assms(2)
    by (simp add: neighbors_of_static [of m' m])
  have s: "set ?ns = {j. j < ChannelCount
          \<and> depth (lookup_' m ! j) = depth ?c
          \<and> (\<exists>es \<in> {-1, 0, 1}. \<exists>ps \<in> {-1, 0, 1}. (es \<noteq> 0 \<or> ps \<noteq> 0)
               \<and> ieta (lookup_' m ! j) = shifted_eta (ieta ?c) es
               \<and> int (iphi (lookup_' m ! j)) = wrapped_phi (int (iphi ?c) + ps))
          \<and> getHPD m j \<noteq> getHPD m index}"
    unfolding set_neighbors_of [OF b] mem_neighbor_ids [OF phi]
    using assms(2) by (auto simp: getHPD_def)
  have w1: "j \<in> set ?ns"
    if "j < ChannelCount" "iphi ?c = 1" "iphi (lookup_' m ! j) = 72"
      "ieta (lookup_' m ! j) = ieta ?c" "depth (lookup_' m ! j) = depth ?c"
      "getHPD m j \<noteq> getHPD m index" for j
    unfolding s using that
    by (auto simp: shifted_eta_def wrapped_phi_def intro!: bexI [of _ 0] bexI [of _ "-1"])
  have w2: "j \<in> set ?ns"
    if "j < ChannelCount" "iphi ?c = 72" "iphi (lookup_' m ! j) = 1"
      "ieta (lookup_' m ! j) = ieta ?c" "depth (lookup_' m ! j) = depth ?c"
      "getHPD m j \<noteq> getHPD m index" for j
    unfolding s using that
    by (auto simp: shifted_eta_def wrapped_phi_def intro!: bexI [of _ 0] bexI [of _ 1])
  have "sorted ?ns" "distinct ?ns"
    by (simp_all add: sorted_neighbors_of distinct_neighbors_of [OF b assms(2)])
  with q q' ok' s w1 w2 show ?thesis by blast
qed

theorem channel_neighbors_spec_witness:
  "(5040::nat) < ChannelCount
   \<and> (\<exists>m' ns. channelNeigborsFromOtherHPDs example_map 5040 = Inr (m', ns)
         \<and> ns = [5041, 5111] \<and> neighborInfoFilled_' m'
         \<and> channelNeigborsFromOtherHPDs m' 5040 = Inr (m', ns))
   \<and> lookup_' example_map ! 5040 = HBHEChannelId 3 16 1
   \<and> lookup_' example_map ! 5111 = HBHEChannelId 3 16 72"
proof -
  have i: "(5040::nat) < ChannelCount" by (simp add: ChannelCount_def)
  have "lookup_' example_map ! 5040 = HBHEChannelId 3 16 1"
    "lookup_' example_map ! 5111 = HBHEChannelId 3 16 72"
    using enumeration_depth3_ring16 [of 1] enumeration_depth3_ring16 [of 72]
    by (simp_all add: built_lookup [OF example_built])
  moreover from channel_neighbors_spec [OF example_reachable i]
  have "\<exists>m' ns. channelNeigborsFromOtherHPDs example_map 5040 = Inr (m', ns)
         \<and> ns = [5041, 5111] \<and> neighborInfoFilled_' m'
         \<and> channelNeigborsFromOtherHPDs m' 5040 = Inr (m', ns)"
    using channel_query_eq [OF reachable_map_ok [OF example_reachable] i] example_neighbors_5040
    by auto
  ultimately show ?thesis using i by blast
qed

section \<open>Claim about the neighbours of a module\<close>

text \<open>
  Claim C3, as stated, makes the result a list of modules. \<open>calculateHPDNeighbors\<close>
  inserts the neighbouring channels themselves: on the example map, module 1 holds the
  single channel 5040, and its neighbours are the channels 5041 and 5111, where the
  claim gives the list of their modules, which is module 0 alone.
\<close>

theorem module_neighbors_not_modules:
  "map_sum id snd (getHPDNeigbors example_hw example_map 1) = Inr [5041, 5111]
   \<and> spec_moduleNeighbors example_map 1 = [0]"
proof -
  have "1 < NUM_HPDS example_hw" by (simp add: example_hw_def)
  from module_query_eq [OF reachable_map_ok [OF example_reachable] this]
  have "map_sum id snd (getHPDNeigbors example_hw example_map 1) = Inr [5041, 5111]"
    by (auto simp: example_hpd_neighbors_1 [unfolded One_nat_def])
  moreover have "spec_moduleNeighbors example_map 1 = [0]"
    by (simp add: spec_moduleNeighbors_def example_module_1 [unfolded One_nat_def]
        example_neighbors_5040 example_hpd_other ChannelCount_def)
  ultimately show ?thesis by simp
qed

text \<open>
  Claim C3, amended. For every module, \<open>getHPDNeigbors\<close> returns the sorted list
  without duplicates of the channel indices that are channel-level neighbours of some
  channel of the module. The first call fills the table for all modules and sets the
  flag: afterwards a query for any module returns its entry of the table, which is what
  a query on the object before the call returns, and leaves the object as it is.
\<close>

theorem module_neighbors_channels:
  assumes "reachable hw m" and "hpd < NUM_HPDS hw"
  shows "\<exists>m' ns. getHPDNeigbors hw m hpd = Inr (m', ns)
     \<and> sorted ns \<and> distinct ns
     \<and> set ns = {j. \<exists>chan l. chan < ChannelCount \<and> getHPD m chan = Inr hpd
                      \<and> calculateNeighborList m chan = Inr l \<and> j \<in> set l}
     \<and> hpdNeighborsFilled_' m'
     \<and> (\<forall>h < NUM_HPDS hw.
           getHPDNeigbors hw m' h = Inr (m', hpd_neighbors_' m' ! h)
         \<and> map_sum id snd (getHPDNeigbors hw m h) = Inr (hpd_neighbors_' m' ! h))"
proof -
  let ?ns = "hpd_neighbors_of m hpd"
  have b: "built hw m" by (rule reachable_built [OF assms(1)])
  have ok: "map_ok hw m" by (rule reachable_map_ok [OF assms(1)])
  from module_query_eq [OF ok assms(2)]
  obtain m' where q: "getHPDNeigbors hw m hpd = Inr (m', ?ns)"
    and ok': "map_ok hw m'" and s: "static_part m' = static_part m"
    and f: "hpdNeighborsFilled_' m'"
    and t: "hpd_neighbors_' m' = map (hpd_neighbors_of m) [0..<NUM_HPDS hw]"
    by blast
  have chans: "set (hpd_channel_lookup_' m ! hpd)
      = {chan. chan < ChannelCount \<and> getHPD m chan = Inr hpd}"
    by (auto simp: built_hpd_channel_lookup [OF b assms(2)] getHPD_def)
  have "set ?ns = {j. \<exists>chan l. chan < ChannelCount \<and> getHPD m chan = Inr hpd
                      \<and> calculateNeighborList m chan = Inr l \<and> j \<in> set l}"
    unfolding set_hpd_neighbors_of chans
    by (auto simp: calculateNeighborList_eq [OF b])
  moreover have "sorted ?ns" "distinct ?ns" by (simp_all add: hpd_neighbors_of_def)
  moreover have "getHPDNeigbors hw m' h = Inr (m', hpd_neighbors_' m' ! h)
         \<and> map_sum id snd (getHPDNeigbors hw m h) = Inr (hpd_neighbors_' m' ! h)"
    if h: "h < NUM_HPDS hw" for h
  proof -
    have "hpd_neighbors_' m' ! h = hpd_neighbors_of m h" using h by (simp add: t)
    moreover have "getHPDNeigbors hw m' h = Inr (m', hpd_neighbors_' m' ! h)"
      using f h by (simp add: getHPDNeigbors_def)
    moreover have "map_sum id snd (getHPDNeigbors hw m h) = Inr (hpd_neighbors_of m h)"
      using module_query_eq [OF ok h] by auto
    ultimately show ?thesis by simp
  qed
  ultimately show ?thesis using q f by blast
qed

theorem module_neighbors_channels_witness:
  "(1::nat) < NUM_HPDS example_hw
   \<and> (\<exists>m' ns. getHPDNeigbors example_hw example_map 1 = Inr (m', ns) \<and> ns = [5041, 5111]
         \<and> sorted ns \<and> distinct ns \<and> hpdNeighborsFilled_' m'
         \<and> getHPDNeigbors example_hw m' 0 = Inr (m', hpd_neighbors_' m' ! 0))"
proof -
  have h: "(1::nat) < NUM_HPDS example_hw" by (simp add: example_hw_def)
  have "map_sum id snd (getHPDNeigbors example_hw example_map 1) = Inr [5041, 5111]"
    using module_query_eq [OF reachable_map_ok [OF example_reachable] h]
    by (auto simp: example_hpd_neighbors_1 [unfolded One_nat_def])
  with module_neighbors_channels [OF example_reachable h] h show ?thesis
    by (auto simp: example_hw_def)
qed

section \<open>Claim about the geometry\<close>

text \<open>
  Claim C9, as stated, fails in two ways. A file that parses but has a row naming a
  triple outside the enumeration fails in \<open>linearIndex\<close> with \<open>InvalidChannel\<close>, before
  the check for missing directions: no channel has a direction, and the failure is
  not \<open>MissingGeometryEntry\<close>. And a channel can receive more than one direction: with
  a row for every channel in the first file and a second row for channel 0 in the
  second file, the construction succeeds and channel 0 holds the direction of the
  second row.
\<close>

theorem geometry_invalid_row_and_duplicate:
  "HBHEChannelGeometry_ctor example_hw example_ops (Rows [(0, 0, 0, (0, 0, 1))]) (Rows [])
     = Inl InvalidChannel
   \<and> map_sum id (\<lambda>g. directions_' g ! 0)
       (HBHEChannelGeometry_ctor example_hw example_ops (Rows example_rows) (Rows [duplicate_row]))
     = Inr (0, 1, 0)
   \<and> row_index example_map (example_rows ! 0) = Inr 0
   \<and> row_index example_map duplicate_row = Inr 0"
proof -
  have "linearIndex example_map 0 0 0 = Inl InvalidChannel"
    by (simp add: linearIndex_def built_inverse_None [OF example_built, THEN iffD2]
        in_channel_enumeration)
  then have a: "HBHEChannelGeometry_ctor example_hw example_ops (Rows [(0, 0, 0, (0, 0, 1))]) (Rows [])
     = Inl InvalidChannel"
    by (simp add: HBHEChannelGeometry_ctor_def example_ctor loadData_def load_row_def)
  have u: "Unit example_ops (0, 1, 0) = (0, 1, 0)" by (simp add: example_ops_def)
  have valid: "\<forall>t \<in> set (example_rows @ [duplicate_row]). \<exists>i. row_index example_map t = Inr i"
    using example_rows_valid duplicate_row_index by auto
  have "\<exists>g. HBHEChannelGeometry_ctor example_hw example_ops (Rows example_rows)
      (Rows [duplicate_row]) = Inr g"
    by (rule geometry_ctor_succeeds [OF example_ctor valid])
       (use duplicate_last in \<open>simp add: example_Unit u example_ops_def del: filter_append\<close>)
  then obtain g where g: "HBHEChannelGeometry_ctor example_hw example_ops (Rows example_rows)
      (Rows [duplicate_row]) = Inr g" by blast
  from geometry_ctor_directions [OF g] obtain chmap hb he where
    c: "HBHEChannelMap_ctor example_hw = Inr chmap" "Rows example_rows = Rows hb"
      "Rows [duplicate_row] = Rows he"
    and d: "\<forall>i < ChannelCount. directions_' g ! i =
         Unit example_ops (row_vector (last (filter (\<lambda>t. row_index chmap t = Inr i) (hb @ he))))"
    by blast
  have "chmap = example_map" "hb = example_rows" "he = [duplicate_row]"
    using c by (simp_all add: example_ctor)
  with d duplicate_last [of 0] have "directions_' g ! 0 = (0, 1, 0)"
    by (simp add: ChannelCount_def u del: filter_append)
  with a g show ?thesis
    using example_row_index [of 0] duplicate_row_index by (simp add: ChannelCount_def)
qed

text \<open>
  Claim C9, amended. When the construction of the geometry succeeds, both files were
  opened and parsed, every enumerated channel is named by at least one row, and its
  direction is not the zero vector and is the unit vector of the last row that names
  it. When the channel map is constructed and both files are opened and parsed: if
  every row names an enumerated channel and some enumerated channel is named by no row,
  the construction fails with \<open>MissingGeometryEntry\<close>; if some row names no enumerated
  channel, the construction fails with \<open>InvalidChannel\<close>.
\<close>

theorem geometry_directions:
  "(HBHEChannelGeometry_ctor hw ops hbFile heFile = Inr g \<longrightarrow>
      (\<exists>chmap hb he. HBHEChannelMap_ctor hw = Inr chmap \<and> hbFile = Rows hb \<and> heFile = Rows he
         \<and> length (directions_' g) = ChannelCount
         \<and> (\<forall>i < ChannelCount.
               directions_' g ! i \<noteq> zero_vector ops
             \<and> filter (\<lambda>t. row_index chmap t = Inr i) (hb @ he) \<noteq> []
             \<and> directions_' g ! i =
                 Unit ops (row_vector (last (filter (\<lambda>t. row_index chmap t = Inr i) (hb @ he)))))))
   \<and> (HBHEChannelMap_ctor hw = Inr chmap \<and> hbFile = Rows hb \<and> heFile = Rows he
       \<and> (\<forall>t \<in> set (hb @ he). \<exists>i. row_index chmap t = Inr i)
       \<and> (\<exists>i < ChannelCount. \<forall>t \<in> set (hb @ he). row_index chmap t \<noteq> Inr i)
      \<longrightarrow> HBHEChannelGeometry_ctor hw ops hbFile heFile = Inl MissingGeometryEntry)
   \<and> (HBHEChannelMap_ctor hw = Inr chmap \<and> hbFile = Rows hb \<and> heFile = Rows he
       \<and> (\<exists>t \<in> set (hb @ he). \<forall>i. row_index chmap t \<noteq> Inr i)
      \<longrightarrow> HBHEChannelGeometry_ctor hw ops hbFile heFile = Inl InvalidChannel)"
proof (intro conjI impI)
  assume "HBHEChannelGeometry_ctor hw ops hbFile heFile = Inr g"
  then show "\<exists>chmap hb he. HBHEChannelMap_ctor hw = Inr chmap \<and> hbFile = Rows hb \<and> heFile = Rows he
         \<and> length (directions_' g) = ChannelCount
         \<and> (\<forall>i < ChannelCount.
               directions_' g ! i \<noteq> zero_vector ops
             \<and> filter (\<lambda>t. row_index chmap t = Inr i) (hb @ he) \<noteq> []
             \<and> directions_' g ! i =
                 Unit ops (row_vector (last (filter (\<lambda>t. row_index chmap t = Inr i) (hb @ he)))))"
    by (rule geometry_ctor_directions)
next
  assume a: "HBHEChannelMap_ctor hw = Inr chmap \<and> hbFile = Rows hb \<and> heFile = Rows he
       \<and> (\<forall>t \<in> set (hb @ he). \<exists>i. row_index chmap t = Inr i)
       \<and> (\<exists>i < ChannelCount. \<forall>t \<in> set (hb @ he). row_index chmap t \<noteq> Inr i)"
  then have b: "built hw chmap" by (auto simp: built_def)
  let ?d0 = "replicate ChannelCount (zero_vector ops)"
  from load_both_succeed [OF b, of hb he ?d0 ops] a
  obtain d1 d2 where l1: "loadData ops (Rows hb) chmap ?d0 = Inr d1"
    and l2: "loadData ops (Rows he) chmap d1 = Inr d2"
    by auto
  from a obtain i where i: "i < ChannelCount" "\<forall>t \<in> set (hb @ he). row_index chmap t \<noteq> Inr i"
    by blast
  then have "filter (\<lambda>t. row_index chmap t = Inr i) (hb @ he) = []"
    by (simp add: filter_empty_conv)
  with load_both_result [OF l1 l2] i(1) have "d2 ! i = zero_vector ops" by simp
  then have "for_each (check_direction ops chmap) d2 [0..<ChannelCount] = Inl MissingGeometryEntry"
    using i(1) by (auto simp: check_directions)
  then show "HBHEChannelGeometry_ctor hw ops hbFile heFile = Inl MissingGeometryEntry"
    using a l1 l2 by (simp add: HBHEChannelGeometry_ctor_def)
next
  assume a: "HBHEChannelMap_ctor hw = Inr chmap \<and> hbFile = Rows hb \<and> heFile = Rows he
       \<and> (\<exists>t \<in> set (hb @ he). \<forall>i. row_index chmap t \<noteq> Inr i)"
  then show "HBHEChannelGeometry_ctor hw ops hbFile heFile = Inl InvalidChannel"
    using geometry_ctor_invalid_row [of hw chmap hb he ops] by simp
qed

theorem geometry_directions_witness:
  "HBHEChannelGeometry_ctor example_hw example_ops (Rows []) (Rows []) = Inl MissingGeometryEntry
   \<and> HBHEChannelGeometry_ctor example_hw example_ops (Rows []) (Rows [(30, 1, 1, (0, 0, 1))])
       = Inl InvalidChannel
   \<and> (\<exists>g. HBHEChannelGeometry_ctor example_hw example_ops (Rows example_rows) (Rows []) = Inr g
         \<and> length (directions_' g) = ChannelCount \<and> directions_' g ! 0 = (0, 0, 1))"
proof -
  let ?none = "\<lparr>directions_' = []\<rparr> :: (real \<times> real \<times> real) HBHEChannelGeometry"
  have "HBHEChannelGeometry_ctor example_hw example_ops (Rows []) (Rows []) = Inl MissingGeometryEntry"
  proof -
    have e: "\<exists>i::nat. i < 5184" by (rule exI [of _ 0]) simp
    show ?thesis
      using e geometry_directions [of example_hw example_ops "Rows []" "Rows []"
          ?none example_map "[]" "[]"]
      by (simp add: example_ctor ChannelCount_def)
  qed
  moreover have "HBHEChannelGeometry_ctor example_hw example_ops (Rows [])
      (Rows [(30, 1, 1, (0, 0, 1))]) = Inl InvalidChannel"
  proof -
    have "row_index example_map (30, 1, 1, (0 :: real, 0 :: real, 1 :: real)) = Inl InvalidChannel"
      by (simp add: row_index_def linearIndex_def
          built_inverse_None [OF example_built, THEN iffD2] in_channel_enumeration)
    then show ?thesis
      using geometry_directions [of example_hw example_ops "Rows []"
          "Rows [(30, 1, 1, (0, 0, 1))]" ?none example_map "[]" "[(30, 1, 1, (0, 0, 1))]"]
      by (simp add: example_ctor)
  qed
  moreover have "\<exists>g. HBHEChannelGeometry_ctor example_hw example_ops (Rows example_rows) (Rows [])
      = Inr g"
    by (rule geometry_ctor_succeeds [OF example_ctor])
       (use example_rows_valid example_rows_complete in \<open>simp_all add: example_Unit example_ops_def\<close>)
  then obtain g where g: "HBHEChannelGeometry_ctor example_hw example_ops (Rows example_rows) (Rows [])
      = Inr g" by blast
  from geometry_directions [of example_hw example_ops "Rows example_rows" "Rows []" g]
  have "length (directions_' g) = ChannelCount \<and> directions_' g ! 0 = (0, 0, 1)"
    using g example_rows_complete [of 0]
    by (auto simp: example_ctor example_Unit ChannelCount_def)
  ultimately show ?thesis using g by blast
qed

end
